theory Spec2Isabelle
  imports Complex_Main "HOL-Library.Word" "HOL-Library.Multiset"
begin

unbundle bit_operations_syntax

chapter \<open>An onion-routing network: sender, relays and their cryptographic helpers\<close>

text \<open>
  The development embeds three source files: the cryptographic helper module
  (\<^verbatim>\<open>rsaEncrypt\<close>, \<^verbatim>\<open>rsaDecrypt\<close>, \<^verbatim>\<open>symEncrypt\<close>, \<^verbatim>\<open>symDecrypt\<close>, key import and
  export), the user service (\<^verbatim>\<open>/message\<close>, \<^verbatim>\<open>/sendMessage\<close> and the shuffle that picks
  a circuit) and the onion router service (\<^verbatim>\<open>/message\<close>).

  Data is modelled as the platform has it. A JavaScript string is a sequence of 16-bit
  code units, a buffer is a sequence of 8-bit bytes. Identifiers of the source that carry
  accents are written without them.
\<close>

section \<open>Strings, bytes and errors\<close>

type_synonym byte = "8 word"
type_synonym jsstring = "16 word list"

text \<open>
  Every exception that the helper module or the layering can raise is a value. The
  constructor names the call that raises: a key import, a WebCrypto encryption or
  decryption, or a property read on \<^verbatim>\<open>undefined\<close>. A \<^verbatim>\<open>fetch\<close> that rejects is
  modelled with the network, below.
\<close>

datatype error =
    ImportKeyError
  | AsymmetricEncryptionError
  | AsymmetricDecryptionError
  | SymmetricEncryptionError
  | SymmetricDecryptionError
  | TypeError

text \<open>A JavaScript number as the handlers use it: an integer or \<^verbatim>\<open>NaN\<close>.\<close>

datatype number = NaN | Num int

definition ascii :: "string \<Rightarrow> jsstring" where
  "ascii s = map (\<lambda>c. of_nat (of_char c)) s"

section \<open>Base64 (\<^verbatim>\<open>arrayBufferToBase64\<close>, \<^verbatim>\<open>base64ToArrayBuffer\<close>)\<close>

text \<open>
  \<^verbatim>\<open>Buffer.from(buffer).toString("base64")\<close> writes the standard alphabet with \<^verbatim>\<open>=\<close>
  padding. \<^verbatim>\<open>Buffer.from(base64, "base64")\<close> is Node's forgiving decoder: it accepts
  both the standard and the URL-safe alphabet, skips every other character, stops at
  the first \<^verbatim>\<open>=\<close>, and drops a trailing group that holds fewer than two characters.
\<close>

definition base64_code :: "nat \<Rightarrow> nat" where
  "base64_code n =
     (if n < 26 then 65 + n
      else if n < 52 then 71 + n
      else if n < 62 then n - 4
      else if n = 62 then 43 else 47)"

definition base64_char :: "nat \<Rightarrow> 16 word" where
  "base64_char n = of_nat (base64_code n)"

definition base64_value :: "nat \<Rightarrow> nat option" where
  "base64_value u =
     (if 65 \<le> u \<and> u \<le> 90 then Some (u - 65)
      else if 97 \<le> u \<and> u \<le> 122 then Some (u - 71)
      else if 48 \<le> u \<and> u \<le> 57 then Some (u + 4)
      else if u = 43 \<or> u = 45 then Some 62
      else if u = 47 \<or> u = 95 then Some 63
      else None)"

definition unbase64 :: "16 word \<Rightarrow> nat option" where
  "unbase64 c = base64_value (unat c)"

fun arrayBufferToBase64 :: "byte list \<Rightarrow> jsstring" where
  "arrayBufferToBase64 [] = []"
| "arrayBufferToBase64 [a] =
     [base64_char (unat a div 4), base64_char (unat a mod 4 * 16), 61, 61]"
| "arrayBufferToBase64 [a, b] =
     [base64_char (unat a div 4), base64_char (unat a mod 4 * 16 + unat b div 16),
      base64_char (unat b mod 16 * 4), 61]"
| "arrayBufferToBase64 (a # b # c # rest) =
     base64_char (unat a div 4) # base64_char (unat a mod 4 * 16 + unat b div 16) #
     base64_char (unat b mod 16 * 4 + unat c div 64) # base64_char (unat c mod 64) #
     arrayBufferToBase64 rest"

fun base64_sextets :: "jsstring \<Rightarrow> nat list" where
  "base64_sextets [] = []"
| "base64_sextets (c # cs) =
     (case unbase64 c of
        Some v \<Rightarrow> v # base64_sextets cs
      | None \<Rightarrow> if c = 61 then [] else base64_sextets cs)"

fun base64_groups :: "nat list \<Rightarrow> byte list" where
  "base64_groups (s1 # s2 # s3 # s4 # rest) =
     of_nat (s1 * 4 + s2 div 16) # of_nat (s2 mod 16 * 16 + s3 div 4) #
     of_nat (s3 mod 4 * 64 + s4) # base64_groups rest"
| "base64_groups [s1, s2, s3] =
     [of_nat (s1 * 4 + s2 div 16), of_nat (s2 mod 16 * 16 + s3 div 4)]"
| "base64_groups [s1, s2] = [of_nat (s1 * 4 + s2 div 16)]"
| "base64_groups _ = []"

definition base64ToArrayBuffer :: "jsstring \<Rightarrow> byte list" where
  "base64ToArrayBuffer s = base64_groups (base64_sextets s)"

section \<open>\<^verbatim>\<open>TextEncoder\<close> and \<^verbatim>\<open>TextDecoder\<close>\<close>

text \<open>
  \<^verbatim>\<open>new TextEncoder().encode(s)\<close> first reads the code units as Unicode scalar values,
  replacing every unpaired surrogate by U+FFFD, and then writes UTF-8.
  \<^verbatim>\<open>new TextDecoder().decode(bytes)\<close> is the UTF-8 decoder of the Encoding standard in
  its default mode: it never throws, it emits U+FFFD for every malformed sequence and
  reads the offending byte again, and it removes one leading U+FEFF (the byte order
  mark) since \<^verbatim>\<open>ignoreBOM\<close> is false by default. The decoder's state is the code point
  under construction, the number of continuation bytes still needed and the bounds
  allowed for the next byte; for a byte in the range of its case the masks of the
  standard (\<^verbatim>\<open>byte & 0x1F\<close>, \<^verbatim>\<open>byte & 0x3F\<close>, ...) are the subtractions written here.
\<close>

definition is_high_surrogate :: "nat \<Rightarrow> bool" where
  "is_high_surrogate u = (0xD800 \<le> u \<and> u \<le> 0xDBFF)"

definition is_low_surrogate :: "nat \<Rightarrow> bool" where
  "is_low_surrogate u = (0xDC00 \<le> u \<and> u \<le> 0xDFFF)"

fun utf16_code_points :: "nat list \<Rightarrow> nat list" where
  "utf16_code_points [] = []"
| "utf16_code_points (u # us) =
     (if is_high_surrogate u then
        (case us of
           [] \<Rightarrow> [0xFFFD]
         | v # vs \<Rightarrow>
             if is_low_surrogate v
             then (0x10000 + (u - 0xD800) * 0x400 + (v - 0xDC00)) # utf16_code_points vs
             else 0xFFFD # utf16_code_points us)
      else if is_low_surrogate u then 0xFFFD # utf16_code_points us
      else u # utf16_code_points us)"

definition utf8_units :: "nat \<Rightarrow> nat list" where
  "utf8_units c =
     (if c < 0x80 then [c]
      else if c < 0x800 then [0xC0 + c div 64, 0x80 + c mod 64]
      else if c < 0x10000 then [0xE0 + c div 4096, 0x80 + c div 64 mod 64, 0x80 + c mod 64]
      else [0xF0 + c div 262144, 0x80 + c div 4096 mod 64, 0x80 + c div 64 mod 64,
            0x80 + c mod 64])"

function utf8_decoder :: "nat \<Rightarrow> nat \<Rightarrow> nat \<Rightarrow> nat \<Rightarrow> nat list \<Rightarrow> nat list" where
  "utf8_decoder cp 0 lo hi [] = []"
| "utf8_decoder cp (Suc n) lo hi [] = [0xFFFD]"
| "utf8_decoder cp 0 lo hi (b # bs) =
     (if b \<le> 0x7F then b # utf8_decoder 0 0 0x80 0xBF bs
      else if 0xC2 \<le> b \<and> b \<le> 0xDF then utf8_decoder (b - 0xC0) 1 0x80 0xBF bs
      else if 0xE0 \<le> b \<and> b \<le> 0xEF then
        utf8_decoder (b - 0xE0) 2 (if b = 0xE0 then 0xA0 else 0x80)
          (if b = 0xED then 0x9F else 0xBF) bs
      else if 0xF0 \<le> b \<and> b \<le> 0xF4 then
        utf8_decoder (b - 0xF0) 3 (if b = 0xF0 then 0x90 else 0x80)
          (if b = 0xF4 then 0x8F else 0xBF) bs
      else 0xFFFD # utf8_decoder 0 0 0x80 0xBF bs)"
| "utf8_decoder cp (Suc n) lo hi (b # bs) =
     (if b < lo \<or> hi < b then 0xFFFD # utf8_decoder 0 0 0x80 0xBF (b # bs)
      else if n = 0 then (cp * 64 + (b - 0x80)) # utf8_decoder 0 0 0x80 0xBF bs
      else utf8_decoder (cp * 64 + (b - 0x80)) n 0x80 0xBF bs)"
  by pat_completeness auto
termination
  by (relation "measure (\<lambda>(cp, n, lo, hi, bs). 2 * length bs + (if n = 0 then 0 else 1))") auto

definition code_units :: "nat \<Rightarrow> nat list" where
  "code_units c =
     (if c < 0x10000 then [c]
      else [0xD800 + (c - 0x10000) div 0x400, 0xDC00 + (c - 0x10000) mod 0x400])"

definition strip_bom :: "nat list \<Rightarrow> nat list" where
  "strip_bom cs = (case cs of [] \<Rightarrow> [] | c # rest \<Rightarrow> if c = 0xFEFF then rest else cs)"

definition TextEncoder_encode :: "jsstring \<Rightarrow> byte list" where
  "TextEncoder_encode s = map of_nat (concat (map utf8_units (utf16_code_points (map unat s))))"

definition TextDecoder_decode :: "byte list \<Rightarrow> jsstring" where
  "TextDecoder_decode bs =
     map of_nat (concat (map code_units (strip_bom (utf8_decoder 0 0 0x80 0xBF (map unat bs)))))"

text \<open>
  \<^verbatim>\<open>String.prototype.isWellFormed\<close> and \<^verbatim>\<open>toWellFormed\<close>: a string is well formed when
  it has no unpaired surrogate; \<^verbatim>\<open>toWellFormed\<close> replaces each of them by U+FFFD.
\<close>

fun isWellFormed_units :: "nat list \<Rightarrow> bool" where
  "isWellFormed_units [] = True"
| "isWellFormed_units (u # us) =
     (if is_high_surrogate u then
        (case us of [] \<Rightarrow> False | v # vs \<Rightarrow> is_low_surrogate v \<and> isWellFormed_units vs)
      else if is_low_surrogate u then False
      else isWellFormed_units us)"

definition isWellFormed :: "jsstring \<Rightarrow> bool" where
  "isWellFormed s = isWellFormed_units (map unat s)"

definition toWellFormed :: "jsstring \<Rightarrow> jsstring" where
  "toWellFormed s = map of_nat (concat (map code_units (utf16_code_points (map unat s))))"

definition startsWithBOM :: "jsstring \<Rightarrow> bool" where
  "startsWithBOM s = (case s of [] \<Rightarrow> False | u # rest \<Rightarrow> u = 0xFEFF)"

definition ascii_only :: "jsstring \<Rightarrow> bool" where
  "ascii_only s = list_all (\<lambda>u. unat u < 0x80) s"

definition scalar_value :: "nat \<Rightarrow> bool" where
  "scalar_value c = (c < 0x110000 \<and> \<not> (0xD800 \<le> c \<and> c \<le> 0xDFFF))"

definition plain_unit :: "16 word \<Rightarrow> bool" where
  "plain_unit u = (unat u < 0xD800 \<or> (0xDFFF < unat u \<and> unat u \<noteq> 0xFEFF))"

section \<open>The WebCrypto primitives\<close>

text \<open>
  The helper module calls \<^verbatim>\<open>webcrypto.subtle\<close> for RSA-OAEP and AES-CBC. AES-CBC is
  modelled down to the block cipher: cipher block chaining with PKCS#7 padding is
  written out, and the AES block function itself is a parameter. RSA-OAEP with SHA-256,
  the DER codec of public keys and the link between a private key and its public key
  are parameters too. The types of the RSA keys are left open.
\<close>

record ('pub, 'priv) backend =
  aes_encrypt_block :: "byte list \<Rightarrow> byte list \<Rightarrow> byte list"
  aes_decrypt_block :: "byte list \<Rightarrow> byte list \<Rightarrow> byte list"
  rsa_public_of :: "'priv \<Rightarrow> 'pub"
  spki_export :: "'pub \<Rightarrow> byte list"
  spki_import :: "byte list \<Rightarrow> 'pub option"
  rsa_oaep_encrypt :: "'pub \<Rightarrow> byte list \<Rightarrow> byte list \<Rightarrow> byte list option"
  rsa_oaep_decrypt :: "'priv \<Rightarrow> byte list \<Rightarrow> byte list option"

text \<open>
  What the theorems below assume of the primitives. The block cipher is a permutation of
  16-byte blocks under every key. Importing an exported public key gives the key back.
  The RSA keys are the 2048-bit keys that a router generates: a message of at most
  \<open>256 - 2 * 32 - 2 = 190\<close> bytes is encrypted to 256 bytes, which the matching
  private key decrypts to the message. \<open>rsa_rejects\<close> says that the private key
  of another pair does not decrypt: the integrity check of OAEP, which a real key of
  another pair passes with negligible probability only.
\<close>

definition block_perm :: "(byte list \<Rightarrow> byte list) \<Rightarrow> (byte list \<Rightarrow> byte list) \<Rightarrow> bool" where
  "block_perm E D = (\<forall>b. length b = 16 \<longrightarrow> length (E b) = 16 \<and> D (E b) = b)"

definition aes_ok :: "('pub, 'priv) backend \<Rightarrow> bool" where
  "aes_ok be = (\<forall>k. block_perm (aes_encrypt_block be k) (aes_decrypt_block be k))"

definition spki_ok :: "('pub, 'priv) backend \<Rightarrow> bool" where
  "spki_ok be = (\<forall>pub. spki_import be (spki_export be pub) = Some pub)"

definition rsa_ok :: "('pub, 'priv) backend \<Rightarrow> bool" where
  "rsa_ok be = (\<forall>priv seed m. length m \<le> 190 \<longrightarrow>
      (\<exists>c. rsa_oaep_encrypt be (rsa_public_of be priv) seed m = Some c \<and> length c = 256 \<and>
           rsa_oaep_decrypt be priv c = Some m))"


subsection \<open>AES-CBC\<close>

definition pkcs7_pad :: "byte list \<Rightarrow> byte list" where
  "pkcs7_pad bs = bs @ replicate (16 - length bs mod 16) (of_nat (16 - length bs mod 16))"

definition pkcs7_unpad :: "byte list \<Rightarrow> byte list option" where
  "pkcs7_unpad bs =
     (if bs = [] then None
      else if unat (last bs) = 0 \<or> 16 < unat (last bs) \<or> length bs < unat (last bs) then None
      else if list_all (\<lambda>b. b = last bs) (drop (length bs - unat (last bs)) bs)
      then Some (take (length bs - unat (last bs)) bs)
      else None)"

definition xor_block :: "byte list \<Rightarrow> byte list \<Rightarrow> byte list" where
  "xor_block a b = map (\<lambda>(x, y). x XOR y) (zip a b)"

function cbc_encrypt :: "(byte list \<Rightarrow> byte list) \<Rightarrow> byte list \<Rightarrow> byte list \<Rightarrow> byte list" where
  "cbc_encrypt E prev bs =
     (if bs = [] then []
      else E (xor_block (take 16 bs) prev) @
           cbc_encrypt E (E (xor_block (take 16 bs) prev)) (drop 16 bs))"
  by pat_completeness auto
termination
  by (relation "measure (\<lambda>(E, prev, bs). length bs)") auto

function cbc_decrypt :: "(byte list \<Rightarrow> byte list) \<Rightarrow> byte list \<Rightarrow> byte list \<Rightarrow> byte list" where
  "cbc_decrypt D prev cs =
     (if cs = [] then []
      else xor_block (D (take 16 cs)) prev @ cbc_decrypt D (take 16 cs) (drop 16 cs))"
  by pat_completeness auto
termination
  by (relation "measure (\<lambda>(D, prev, cs). length cs)") auto

text \<open>
  \<^verbatim>\<open>subtle.encrypt({name: "AES-CBC", iv}, key, data)\<close> and its \<^verbatim>\<open>decrypt\<close>: the
  initialisation vector must have 16 bytes; decryption rejects a ciphertext that is empty
  or not a whole number of blocks, and a plaintext whose padding is malformed.
\<close>

definition aes_cbc_encrypt ::
    "('pub, 'priv) backend \<Rightarrow> byte list \<Rightarrow> byte list \<Rightarrow> byte list \<Rightarrow> error + byte list" where
  "aes_cbc_encrypt be key iv data =
     (if length iv \<noteq> 16 then Inl SymmetricEncryptionError
      else Inr (cbc_encrypt (aes_encrypt_block be key) iv (pkcs7_pad data)))"

definition aes_cbc_decrypt ::
    "('pub, 'priv) backend \<Rightarrow> byte list \<Rightarrow> byte list \<Rightarrow> byte list \<Rightarrow> error + byte list" where
  "aes_cbc_decrypt be key iv data =
     (if length iv \<noteq> 16 then Inl SymmetricDecryptionError
      else if data = [] \<or> length data mod 16 \<noteq> 0 then Inl SymmetricDecryptionError
      else case pkcs7_unpad (cbc_decrypt (aes_decrypt_block be key) iv data) of
             None \<Rightarrow> Inl SymmetricDecryptionError
           | Some plain \<Rightarrow> Inr plain)"

section \<open>The cryptographic helper module\<close>

text \<open>
  A symmetric \<^verbatim>\<open>CryptoKey\<close> is its raw key material. The random values a call draws
  (the initialisation vector of \<^verbatim>\<open>symEncrypt\<close>, the OAEP seed of \<^verbatim>\<open>rsaEncrypt\<close>) are
  arguments of the model.
\<close>

type_synonym sym_key = "byte list"

definition valid_sym_key :: "sym_key \<Rightarrow> bool" where
  "valid_sym_key key = (length key = 16 \<or> length key = 24 \<or> length key = 32)"

definition importPubKey :: "('pub, 'priv) backend \<Rightarrow> jsstring \<Rightarrow> error + 'pub" where
  "importPubKey be strKey =
     (case spki_import be (base64ToArrayBuffer strKey) of
        None \<Rightarrow> Inl ImportKeyError
      | Some key \<Rightarrow> Inr key)"

definition exportPubKey :: "('pub, 'priv) backend \<Rightarrow> 'pub \<Rightarrow> jsstring" where
  "exportPubKey be key = arrayBufferToBase64 (spki_export be key)"

definition rsaEncrypt ::
    "('pub, 'priv) backend \<Rightarrow> byte list \<Rightarrow> jsstring \<Rightarrow> jsstring \<Rightarrow> error + jsstring" where
  "rsaEncrypt be seed b64Data strPublicKey =
     (case importPubKey be strPublicKey of
        Inl e \<Rightarrow> Inl e
      | Inr publicKey \<Rightarrow>
          (case rsa_oaep_encrypt be publicKey seed (TextEncoder_encode b64Data) of
             None \<Rightarrow> Inl AsymmetricEncryptionError
           | Some encrypted \<Rightarrow> Inr (arrayBufferToBase64 encrypted)))"

definition rsaDecrypt ::
    "('pub, 'priv) backend \<Rightarrow> jsstring \<Rightarrow> 'priv \<Rightarrow> error + jsstring" where
  "rsaDecrypt be data privateKey =
     (case rsa_oaep_decrypt be privateKey (base64ToArrayBuffer data) of
        None \<Rightarrow> Inl AsymmetricDecryptionError
      | Some decrypted \<Rightarrow> Inr (TextDecoder_decode decrypted))"

definition exportSymKey :: "sym_key \<Rightarrow> jsstring" where
  "exportSymKey key = arrayBufferToBase64 key"

text \<open>\<^verbatim>\<open>importKey("raw", ..., {name: "AES-CBC"}, ...)\<close> accepts 128, 192 and 256 bits.\<close>

definition importSymKey :: "jsstring \<Rightarrow> error + sym_key" where
  "importSymKey strKey =
     (if length (base64ToArrayBuffer strKey) = 16 \<or> length (base64ToArrayBuffer strKey) = 24 \<or>
         length (base64ToArrayBuffer strKey) = 32
      then Inr (base64ToArrayBuffer strKey)
      else Inl ImportKeyError)"

definition symEncrypt ::
    "('pub, 'priv) backend \<Rightarrow> byte list \<Rightarrow> sym_key \<Rightarrow> jsstring \<Rightarrow> error + jsstring" where
  "symEncrypt be iv key data =
     (case aes_cbc_encrypt be key iv (TextEncoder_encode data) of
        Inl e \<Rightarrow> Inl e
      | Inr encrypted \<Rightarrow> Inr (arrayBufferToBase64 (iv @ encrypted)))"

definition symDecrypt ::
    "('pub, 'priv) backend \<Rightarrow> jsstring \<Rightarrow> jsstring \<Rightarrow> error + jsstring" where
  "symDecrypt be strKey encryptedData =
     (case importSymKey strKey of
        Inl e \<Rightarrow> Inl e
      | Inr key \<Rightarrow>
          (case aes_cbc_decrypt be key (take 16 (base64ToArrayBuffer encryptedData))
                  (drop 16 (base64ToArrayBuffer encryptedData)) of
             Inl e \<Rightarrow> Inl e
           | Inr decrypted \<Rightarrow> Inr (TextDecoder_decode decrypted)))"

section \<open>Numbers in strings\<close>

text \<open>
  The template literal of a non-negative integer is its decimal numeral;
  \<^verbatim>\<open>padStart(n, "0")\<close> fills on the left up to \<open>n\<close> code units and leaves a longer
  string as it is. \<^verbatim>\<open>parseInt(s, 10)\<close> skips leading white space, reads an optional sign
  and the longest run of decimal digits, and is \<^verbatim>\<open>NaN\<close> when that run is empty; it never
  throws. The router calls it on at most ten code units, where the value is exact.
\<close>

fun decimal_digits :: "nat \<Rightarrow> nat list" where
  "decimal_digits n = (if n < 10 then [n] else decimal_digits (n div 10) @ [n mod 10])"

declare decimal_digits.simps [simp del]

definition digit_char :: "nat \<Rightarrow> 16 word" where
  "digit_char d = of_nat (48 + d)"

definition number_toString :: "nat \<Rightarrow> jsstring" where
  "number_toString n = map digit_char (decimal_digits n)"

definition padStart :: "nat \<Rightarrow> 16 word \<Rightarrow> jsstring \<Rightarrow> jsstring" where
  "padStart n c s = replicate (n - length s) c @ s"

definition is_white_space :: "16 word \<Rightarrow> bool" where
  "is_white_space c = (c \<in> set
     [0x9, 0xA, 0xB, 0xC, 0xD, 0x20, 0xA0, 0x1680, 0x2000, 0x2001, 0x2002, 0x2003, 0x2004,
      0x2005, 0x2006, 0x2007, 0x2008, 0x2009, 0x200A, 0x2028, 0x2029, 0x202F, 0x205F,
      0x3000, 0xFEFF])"

definition is_digit :: "16 word \<Rightarrow> bool" where
  "is_digit c = (48 \<le> unat c \<and> unat c \<le> 57)"

definition digits_value :: "jsstring \<Rightarrow> nat" where
  "digits_value z = foldl (\<lambda>a c. 10 * a + (unat c - 48)) 0 z"

definition strip_sign :: "jsstring \<Rightarrow> jsstring" where
  "strip_sign s = (case s of [] \<Rightarrow> [] | c # rest \<Rightarrow> if c = 43 \<or> c = 45 then rest else s)"

definition is_negative :: "jsstring \<Rightarrow> bool" where
  "is_negative s = (case s of [] \<Rightarrow> False | c # rest \<Rightarrow> c = 45)"

definition parseInt :: "jsstring \<Rightarrow> number" where
  "parseInt s =
     (if takeWhile is_digit (strip_sign (dropWhile is_white_space s)) = [] then NaN
      else if is_negative (dropWhile is_white_space s)
      then Num (- int (digits_value (takeWhile is_digit (strip_sign (dropWhile is_white_space s)))))
      else Num (int (digits_value (takeWhile is_digit (strip_sign (dropWhile is_white_space s))))))"

section \<open>Configuration, nodes and the network\<close>

text \<open>
  The port constants come from a configuration module; they are parameters here. A node
  of the registry is its identifier and its public key in Base64. A \<^verbatim>\<open>fetch\<close> to a
  local port either resolves or rejects: the network is the predicate that says which,
  and a URL whose port is \<^verbatim>\<open>NaN\<close>, negative or above 65535 is rejected before any
  request is made. The status of the response is not looked at by any caller.
\<close>

record config =
  BASE_USER_PORT :: nat
  BASE_ONION_ROUTER_PORT :: nat
  REGISTRY_PORT :: nat

record node =
  nodeId :: nat
  pubKey :: jsstring

type_synonym network = "nat \<Rightarrow> jsstring \<Rightarrow> bool"

definition fetch_message :: "network \<Rightarrow> number \<Rightarrow> jsstring \<Rightarrow> bool" where
  "fetch_message net port body =
     (case port of
        NaN \<Rightarrow> False
      | Num p \<Rightarrow> if 0 \<le> p \<and> p \<le> 65535 then net (nat p) body else False)"

datatype response = Success200 | Error500

section \<open>The onion router service\<close>

record router_state =
  dernierMessageChiffreRecu :: "jsstring option"
  dernierMessageDechiffreRecu :: "jsstring option"
  derniereDestinationMessage :: "number option"

text \<open>
  The body of the \<^verbatim>\<open>try\<close> block of \<^verbatim>\<open>/message\<close> up to the state update: split at
  344, decrypt the key, import it, decrypt the content, read the next address from the
  first ten code units.
\<close>

definition dechiffrer_couche ::
    "('pub, 'priv) backend \<Rightarrow> 'priv \<Rightarrow> jsstring \<Rightarrow> error + (number \<times> jsstring)" where
  "dechiffrer_couche be clePrivee message =
     (case rsaDecrypt be (take 344 message) clePrivee of
        Inl e \<Rightarrow> Inl e
      | Inr cleSymetriqueBase64 \<Rightarrow>
          (case importSymKey cleSymetriqueBase64 of
             Inl e \<Rightarrow> Inl e
           | Inr cleSymetrique \<Rightarrow>
               (case symDecrypt be cleSymetriqueBase64 (drop 344 message) of
                  Inl e \<Rightarrow> Inl e
                | Inr contenuDechiffre \<Rightarrow>
                    Inr (parseInt (take 10 contenuDechiffre), drop 10 contenuDechiffre))))"

text \<open>
  The handler returns the new state, the response and the request it delivered to the
  next hop, if any.
\<close>

definition router_message ::
    "('pub, 'priv) backend \<Rightarrow> network \<Rightarrow> 'priv \<Rightarrow> router_state \<Rightarrow> jsstring \<Rightarrow>
       router_state \<times> response \<times> (number \<times> jsstring) option" where
  "router_message be net clePrivee st message =
     (case dechiffrer_couche be clePrivee message of
        Inl e \<Rightarrow> (st\<lparr>dernierMessageChiffreRecu := Some message\<rparr>, Error500, None)
      | Inr (destinationSuivante, messageSuivant) \<Rightarrow>
          if fetch_message net destinationSuivante messageSuivant
          then (st\<lparr>dernierMessageChiffreRecu := Some message,
                   dernierMessageDechiffreRecu := Some messageSuivant,
                   derniereDestinationMessage := Some destinationSuivante\<rparr>,
                Success200, Some (destinationSuivante, messageSuivant))
          else (st\<lparr>dernierMessageChiffreRecu := Some message,
                   dernierMessageDechiffreRecu := Some messageSuivant,
                   derniereDestinationMessage := Some destinationSuivante\<rparr>,
                Error500, None))"

section \<open>The user service\<close>

record user_state =
  dernierMessageRecu :: "jsstring option"
  dernierMessageEnvoye :: "jsstring option"
  dernierCircuit :: "nat list"


subsection \<open>Choosing the circuit\<close>

text \<open>
  The Fisher-Yates loop runs \<open>i\<close> from the last index down to 1. \<open>random k\<close> is the
  result of the \<open>k\<close>-th call of \<^verbatim>\<open>Math.random()\<close>, a number in \<open>[0, 1)\<close>, for which
  \<open>j \<le> i\<close>. The swap reads both cells before it writes them.
\<close>

fun melanger :: "(nat \<Rightarrow> real) \<Rightarrow> nat \<Rightarrow> nat \<Rightarrow> 'a list \<Rightarrow> 'a list" where
  "melanger random k 0 melanges = melanges"
| "melanger random k (Suc i) melanges =
     melanger random (Suc k) i
       (melanges[Suc i := melanges ! nat \<lfloor>random k * real (Suc i + 1)\<rfloor>,
                 nat \<lfloor>random k * real (Suc i + 1)\<rfloor> := melanges ! Suc i])"

definition selectionnerNoeudsAleatoires :: "(nat \<Rightarrow> real) \<Rightarrow> 'a list \<Rightarrow> nat \<Rightarrow> 'a list" where
  "selectionnerNoeudsAleatoires random nodes nombre =
     take nombre (melanger random 0 (length nodes - 1) nodes)"

subsection \<open>Sending a message\<close>

text \<open>
  Everything \<^verbatim>\<open>/sendMessage\<close> draws or asks from outside: the answer of the registry
  (\<open>None\<close> when the request or its JSON fails), the results of \<^verbatim>\<open>Math.random()\<close>, the
  three symmetric keys, and the initialisation vector and OAEP seed of each layer.
\<close>

record draws =
  registry :: "node list option"
  math_random :: "nat \<Rightarrow> real"
  cleEntree :: sym_key
  cleIntermediaire :: sym_key
  cleSortie :: sym_key
  ivEntree :: "byte list"
  ivIntermediaire :: "byte list"
  ivSortie :: "byte list"
  seedEntree :: "byte list"
  seedIntermediaire :: "byte list"
  seedSortie :: "byte list"

record send_message_body =
  message :: jsstring
  destinationUserId :: nat

text \<open>
  One layer, the five statements that the handler writes three times: the next address
  padded to ten characters in front of the data, encrypted under the layer's key, behind
  that key encrypted for the hop.
\<close>

definition chiffrer_couche ::
    "('pub, 'priv) backend \<Rightarrow> sym_key \<Rightarrow> byte list \<Rightarrow> byte list \<Rightarrow> nat \<Rightarrow> jsstring \<Rightarrow>
       jsstring \<Rightarrow> error + jsstring" where
  "chiffrer_couche be cle iv seed port clePublique donnees =
     (case symEncrypt be iv cle (padStart 10 48 (number_toString port) @ donnees) of
        Inl e \<Rightarrow> Inl e
      | Inr coucheCryptee \<Rightarrow>
          (case rsaEncrypt be seed (exportSymKey cle) clePublique of
             Inl e \<Rightarrow> Inl e
           | Inr cleCryptee \<Rightarrow> Inr (cleCryptee @ coucheCryptee)))"

text \<open>
  The layering. Reading \<^verbatim>\<open>pubKey\<close> of a hop that the circuit does not have throws a
  \<^verbatim>\<open>TypeError\<close>.
\<close>

definition construire_oignon ::
    "('pub, 'priv) backend \<Rightarrow> config \<Rightarrow> draws \<Rightarrow> send_message_body \<Rightarrow> node list \<Rightarrow>
       error + jsstring" where
  "construire_oignon be conf dr body circuit =
     (case circuit of
        noeudEntree # noeudIntermediaire # noeudSortie # rest \<Rightarrow>
          (case chiffrer_couche be (cleSortie dr) (ivSortie dr) (seedSortie dr)
                  (BASE_USER_PORT conf + destinationUserId body) (pubKey noeudSortie)
                  (message body) of
             Inl e \<Rightarrow> Inl e
           | Inr donnees3 \<Rightarrow>
               (case chiffrer_couche be (cleIntermediaire dr) (ivIntermediaire dr)
                       (seedIntermediaire dr)
                       (BASE_ONION_ROUTER_PORT conf + nodeId noeudSortie)
                       (pubKey noeudIntermediaire) donnees3 of
                  Inl e \<Rightarrow> Inl e
                | Inr donnees2 \<Rightarrow>
                    chiffrer_couche be (cleEntree dr) (ivEntree dr) (seedEntree dr)
                      (BASE_ONION_ROUTER_PORT conf + nodeId noeudIntermediaire)
                      (pubKey noeudEntree) donnees2))
      | _ \<Rightarrow> Inl TypeError)"

text \<open>
  The handler: the state, the response, and the request delivered to the entry node.
  The entry node is read from the circuit only where the layering has succeeded, that
  is, where the circuit has its three nodes.
\<close>

definition sendMessage ::
    "('pub, 'priv) backend \<Rightarrow> config \<Rightarrow> network \<Rightarrow> draws \<Rightarrow> user_state \<Rightarrow>
       send_message_body \<Rightarrow> user_state \<times> response \<times> (nat \<times> jsstring) option" where
  "sendMessage be conf net dr st body =
     (case registry dr of
        None \<Rightarrow> (st\<lparr>dernierMessageEnvoye := Some (message body)\<rparr>, Error500, None)
      | Some nodes \<Rightarrow>
          (case construire_oignon be conf dr body
                  (selectionnerNoeudsAleatoires (math_random dr) nodes 3) of
             Inl e \<Rightarrow>
               (st\<lparr>dernierMessageEnvoye := Some (message body),
                   dernierCircuit :=
                     map nodeId (selectionnerNoeudsAleatoires (math_random dr) nodes 3)\<rparr>,
                Error500, None)
           | Inr donnees \<Rightarrow>
               if fetch_message net
                    (Num (int (BASE_ONION_ROUTER_PORT conf +
                       nodeId (hd (selectionnerNoeudsAleatoires (math_random dr) nodes 3)))))
                    donnees
               then (st\<lparr>dernierMessageEnvoye := Some (message body),
                        dernierCircuit :=
                          map nodeId (selectionnerNoeudsAleatoires (math_random dr) nodes 3)\<rparr>,
                     Success200,
                     Some (BASE_ONION_ROUTER_PORT conf +
                             nodeId (hd (selectionnerNoeudsAleatoires (math_random dr) nodes 3)),
                           donnees))
               else (st\<lparr>dernierMessageEnvoye := Some (message body),
                        dernierCircuit :=
                          map nodeId (selectionnerNoeudsAleatoires (math_random dr) nodes 3)\<rparr>,
                     Error500, None)))"

section \<open>Compositions that the properties speak of\<close>

text \<open>
  Encrypting and then decrypting with the exported key, as a caller of the helper module
  does it; an exception of either call is the result.
\<close>

definition sym_roundtrip ::
    "('pub, 'priv) backend \<Rightarrow> byte list \<Rightarrow> sym_key \<Rightarrow> jsstring \<Rightarrow> error + jsstring" where
  "sym_roundtrip be iv key P =
     (case symEncrypt be iv key P of
        Inl e \<Rightarrow> Inl e
      | Inr c \<Rightarrow> symDecrypt be (exportSymKey key) c)"


text \<open>
  A message that travels along routers: each router's \<^verbatim>\<open>/message\<close> handler runs, from
  a fresh state, on what the previous one delivered (the JSON body of a request carries
  a string unchanged). The result is the list of the addresses the routers recovered and
  the payload that the last one delivered.
\<close>

definition etat_initial :: router_state where
  "etat_initial = \<lparr>dernierMessageChiffreRecu = None, dernierMessageDechiffreRecu = None,
     derniereDestinationMessage = None\<rparr>"



subsection \<open>The encoder as the specification words it\<close>



section \<open>A small instance of the primitives\<close>

text \<open>
  The theorems below hold for every backend that satisfies the assumptions. To apply
  them to concrete inputs, here is one that does: a block cipher that adds the key length
  to every byte, and an RSA stand-in whose keys are single bytes and whose ciphertext is
  the public key, the length and the message, filled to 256 bytes.
\<close>

definition exemple_backend :: "(byte, byte) backend" where
  "exemple_backend = \<lparr>
     aes_encrypt_block = (\<lambda>k b. map (\<lambda>x. x + of_nat (length k)) b),
     aes_decrypt_block = (\<lambda>k b. map (\<lambda>x. x - of_nat (length k)) b),
     rsa_public_of = (\<lambda>priv. priv),
     spki_export = (\<lambda>pub. [pub]),
     spki_import = (\<lambda>bs. case bs of [pub] \<Rightarrow> Some pub | _ \<Rightarrow> None),
     rsa_oaep_encrypt = (\<lambda>pub seed m.
        if length m \<le> 190
        then Some (pub # of_nat (length m) # m @ replicate (254 - length m) 0)
        else None),
     rsa_oaep_decrypt = (\<lambda>priv c.
        if length c = 256 \<and> hd c = priv \<and> unat (c ! 1) \<le> 190
        then Some (take (unat (c ! 1)) (drop 2 c))
        else None)\<rparr>"

definition exemple_conf :: config where
  "exemple_conf = \<lparr>BASE_USER_PORT = 3000, BASE_ONION_ROUTER_PORT = 4000, REGISTRY_PORT = 8080\<rparr>"

definition exemple_noeuds :: "node list" where
  "exemple_noeuds =
     [\<lparr>nodeId = 0, pubKey = exportPubKey exemple_backend 10\<rparr>,
      \<lparr>nodeId = 1, pubKey = exportPubKey exemple_backend 11\<rparr>,
      \<lparr>nodeId = 2, pubKey = exportPubKey exemple_backend 12\<rparr>]"

definition exemple_draws :: "node list option \<Rightarrow> draws" where
  "exemple_draws reg = \<lparr>
     registry = reg,
     math_random = (\<lambda>k. 0),
     cleEntree = replicate 32 1,
     cleIntermediaire = replicate 32 2,
     cleSortie = replicate 32 3,
     ivEntree = replicate 16 0,
     ivIntermediaire = replicate 16 0,
     ivSortie = replicate 16 0,
     seedEntree = [],
     seedIntermediaire = [],
     seedSortie = []\<rparr>"

definition exemple_etat :: user_state where
  "exemple_etat = \<lparr>dernierMessageRecu = None, dernierMessageEnvoye = None, dernierCircuit = []\<rparr>"

definition reseau_fiable :: network where
  "reseau_fiable port body = True"

definition reseau_coupe :: network where
  "reseau_coupe port body = False"

text \<open>
  One layer for the router whose private key is 12: the text \<^verbatim>\<open>hello\<close> for the user
  at port 3001.
\<close>

definition exemple_enveloppe :: jsstring where
  "exemple_enveloppe =
     (case chiffrer_couche exemple_backend (replicate 32 3) (replicate 16 0) [] 3001
             (exportPubKey exemple_backend 12) (ascii ''hello'') of
        Inl e \<Rightarrow> []
      | Inr env \<Rightarrow> env)"


section \<open>Lemmas: Base64\<close>

lemma byte_lt: "unat (a :: byte) < 256"
  using unsigned_less [of a, where 'a=nat] by simp
lemma unbase64_pad: "unbase64 61 = None"
  by (simp add: unbase64_def base64_value_def)


lemma unat16: "n < 65536 \<Longrightarrow> unat (of_nat n :: 16 word) = n"
  by (simp add: unat_of_nat)
lemma base64_code_lt: "base64_code n < 128"
  by (simp add: base64_code_def; arith)
lemma base64_value_code: "n < 64 \<Longrightarrow> base64_value (base64_code n) = Some n"
  by (simp add: base64_code_def base64_value_def; arith)
lemma unat_base64_char: "n < 64 \<Longrightarrow> unbase64 (base64_char n) = Some n"
proof -
  assume n: "n < 64"
  have "base64_code n < 65536" using base64_code_lt [of n] by linarith
  then have "unat (base64_char n) = base64_code n"
    unfolding base64_char_def by (rule unat16)
  then show ?thesis using n by (simp add: unbase64_def base64_value_code)
qed

lemma sextet1: "unat (a :: byte) div 4 < 64"
  using byte_lt [of a] by arith
lemma sextet2: "unat (a::byte) mod 4 * 16 + unat (b::byte) div 16 < 64"
  using byte_lt [of b] by arith
lemma sextet3: "unat (b::byte) mod 16 * 4 + unat (c::byte) div 64 < 64"
  using byte_lt [of c] by arith
lemma sextet4: "unat (c :: byte) mod 64 < 64"
  by arith
lemma sextet2_last: "unat (a::byte) mod 4 * 16 < 64" by arith
lemma sextet3_last: "unat (b::byte) mod 16 * 4 < 64" by arith

lemma div16_less: "x < 256 \<Longrightarrow> x div 16 < (16::nat)"
  by (rule less_mult_imp_div_less) simp
lemma div64_less: "x < 256 \<Longrightarrow> x div 64 < (4::nat)"
  by (rule less_mult_imp_div_less) simp

lemma join1: "x < 256 \<Longrightarrow> (a::nat) div 4 * 4 + (a mod 4 * 16 + x div 16) div 16 = a"
  using div16_less [of x] by simp
lemma join2: "x < 256 \<Longrightarrow> b < 256 \<Longrightarrow>
    (y mod 4 * 16 + (b::nat) div 16) mod 16 * 16 + (b mod 16 * 4 + x div 64) div 4 = b"
  using div16_less [of b] div64_less [of x] by simp
lemma join3: "c < 256 \<Longrightarrow> (y mod 16 * 4 + (c::nat) div 64) mod 4 * 64 + c mod 64 = c"
  using div64_less [of c] by simp
lemma join1_last: "(a::nat) div 4 * 4 + (a mod 4 * 16) div 16 = a"
  by simp
lemma join2_last: "b < 256 \<Longrightarrow>
    (y mod 4 * 16 + (b::nat) div 16) mod 16 * 16 + (b mod 16 * 4) div 4 = b"
  using div16_less [of b] by simp

lemmas sextets = sextet1 sextet2 sextet3 sextet4 sextet2_last sextet3_last

lemma byte_of_unat: "n = unat (a :: byte) \<Longrightarrow> of_nat n = a"
  by simp

lemma base64_groups_full:
  "base64_groups (unat a div 4 # (unat a mod 4 * 16 + unat b div 16) #
      (unat b mod 16 * 4 + unat c div 64) # (unat c mod 64) # rest) =
   a # b # c # base64_groups rest"
proof -
  have "of_nat (unat a div 4 * 4 + (unat a mod 4 * 16 + unat b div 16) div 16) = a"
    by (rule byte_of_unat) (rule join1 [OF byte_lt])
  moreover have "of_nat ((unat a mod 4 * 16 + unat b div 16) mod 16 * 16 +
      (unat b mod 16 * 4 + unat c div 64) div 4) = b"
    by (rule byte_of_unat) (rule join2 [OF byte_lt byte_lt])
  moreover have "of_nat ((unat b mod 16 * 4 + unat c div 64) mod 4 * 64 + unat c mod 64) = c"
    by (rule byte_of_unat) (rule join3 [OF byte_lt])
  ultimately show ?thesis
    by (simp only: base64_groups.simps)
qed

lemma base64_groups_two:
  "base64_groups [unat a div 4, unat a mod 4 * 16 + unat b div 16, unat b mod 16 * 4] = [a, b]"
proof -
  have "of_nat (unat a div 4 * 4 + (unat a mod 4 * 16 + unat b div 16) div 16) = a"
    by (rule byte_of_unat) (rule join1 [OF byte_lt])
  moreover have "of_nat ((unat a mod 4 * 16 + unat b div 16) mod 16 * 16 +
      (unat b mod 16 * 4) div 4) = b"
    by (rule byte_of_unat) (rule join2_last [OF byte_lt])
  ultimately show ?thesis
    by (simp only: base64_groups.simps)
qed

lemma base64_groups_one:
  "base64_groups [unat a div 4, unat a mod 4 * 16] = [a]"
proof -
  have "of_nat (unat a div 4 * 4 + (unat a mod 4 * 16) div 16) = a"
    by (rule byte_of_unat) (rule join1_last)
  then show ?thesis
    by (simp only: base64_groups.simps)
qed

lemma base64_roundtrip: "base64ToArrayBuffer (arrayBufferToBase64 bs) = bs"
proof (induction bs rule: arrayBufferToBase64.induct)
  case 1
  show ?case by (simp add: base64ToArrayBuffer_def)
next
  case (2 a)
  show ?case
    unfolding base64ToArrayBuffer_def
    by (simp add: unat_base64_char sextets unbase64_pad base64_groups_one del: base64_groups.simps)
next
  case (3 a b)
  show ?case
    unfolding base64ToArrayBuffer_def
    by (simp add: unat_base64_char sextets unbase64_pad base64_groups_two del: base64_groups.simps)
next
  case (4 a b c rest)
  then show ?case
    unfolding base64ToArrayBuffer_def
    by (simp add: unat_base64_char sextets base64_groups_full del: base64_groups.simps)
qed

lemma length_arrayBufferToBase64:
  "length (arrayBufferToBase64 bs) = 4 * ((length bs + 2) div 3)"
  by (induction bs rule: arrayBufferToBase64.induct) (simp_all, arith)


section \<open>Lemmas: UTF-8 and UTF-16\<close>

lemma decode1: "c < 0x80 \<Longrightarrow>
    utf8_decoder 0 0 0x80 0xBF (c # rest) = c # utf8_decoder 0 0 0x80 0xBF rest"
  by simp

lemma utf8_decoder_cont:
  "0 < n \<Longrightarrow> utf8_decoder cp n lo hi (b # bs) =
     (if b < lo \<or> hi < b then 0xFFFD # utf8_decoder 0 0 0x80 0xBF (b # bs)
      else if n = 1 then (cp * 64 + (b - 0x80)) # utf8_decoder 0 0 0x80 0xBF bs
      else utf8_decoder (cp * 64 + (b - 0x80)) (n - 1) 0x80 0xBF bs)"
  by (cases n) simp_all

lemma decode2: "2 \<le> q \<Longrightarrow> q < 32 \<Longrightarrow> r < 64 \<Longrightarrow>
    utf8_decoder 0 0 0x80 0xBF ((0xC0 + q) # (0x80 + r) # rest) =
      (q * 64 + r) # utf8_decoder 0 0 0x80 0xBF rest"
  by (simp add: utf8_decoder_cont)

lemma decode3: "q < 16 \<Longrightarrow> r < 64 \<Longrightarrow> s < 64 \<Longrightarrow>
    (q = 0 \<longrightarrow> 32 \<le> r) \<Longrightarrow> (q = 13 \<longrightarrow> r < 32) \<Longrightarrow>
    utf8_decoder 0 0 0x80 0xBF ((0xE0 + q) # (0x80 + r) # (0x80 + s) # rest) =
      ((q * 64 + r) * 64 + s) # utf8_decoder 0 0 0x80 0xBF rest"
  by (auto simp: utf8_decoder_cont)

lemma decode4: "q < 5 \<Longrightarrow> r < 64 \<Longrightarrow> s < 64 \<Longrightarrow> t < 64 \<Longrightarrow>
    (q = 0 \<longrightarrow> 16 \<le> r) \<Longrightarrow> (q = 4 \<longrightarrow> r < 16) \<Longrightarrow>
    utf8_decoder 0 0 0x80 0xBF ((0xF0 + q) # (0x80 + r) # (0x80 + s) # (0x80 + t) # rest) =
      (((q * 64 + r) * 64 + s) * 64 + t) # utf8_decoder 0 0 0x80 0xBF rest"
  by (auto simp: utf8_decoder_cont)


lemma div4096: "(c::nat) div 4096 = c div 64 div 64"
  using div_mult2_eq [of c 64 64] by simp

lemma div262144: "(c::nat) div 262144 = c div 64 div 64 div 64"
  using div_mult2_eq [of c 4096 64] by (simp add: div4096)

lemma utf8_roundtrip_point:
  assumes "scalar_value c"
  shows "utf8_decoder 0 0 0x80 0xBF (utf8_units c @ rest) = c # utf8_decoder 0 0 0x80 0xBF rest"
proof -
  define s where "s = c mod 64"
  define a where "a = c div 64"
  define r where "r = a mod 64"
  define b where "b = a div 64"
  define t where "t = b mod 64"
  define q where "q = b div 64"
  have c: "c = a * 64 + s" and s: "s < 64" by (simp_all add: a_def s_def)
  have a: "a = b * 64 + r" and r: "r < 64" by (simp_all add: b_def r_def)
  have b: "b = q * 64 + t" and t: "t < 64" by (simp_all add: q_def t_def)
  have fields: "c mod 64 = s" "c div 64 = a" "c div 64 mod 64 = r" "c div 4096 = b"
    "c div 4096 mod 64 = t" "c div 262144 = q" "a mod 64 = r" "a div 64 = b"
    "b mod 64 = t" "b div 64 = q"
    by (simp_all add: s_def a_def r_def b_def t_def q_def div4096 div262144)
  from assms have sc: "c < 0x110000" "\<not> (0xD800 \<le> c \<and> c \<le> 0xDFFF)"
    by (simp_all add: scalar_value_def)
  consider "c < 0x80" | "0x80 \<le> c" "c < 0x800" | "0x800 \<le> c" "c < 0x10000" | "0x10000 \<le> c"
    by linarith
  then show ?thesis
  proof cases
    case 1
    then show ?thesis by (simp add: utf8_units_def)
  next
    case 2
    then have u: "utf8_units c = [0xC0 + a, 0x80 + s]"
      by (simp add: utf8_units_def fields)
    have "2 \<le> a" "a < 32" using 2 c s by linarith+
    then show ?thesis
      unfolding u using decode2 [of a s rest] s c by simp
  next
    case 3
    then have u: "utf8_units c = [0xE0 + b, 0x80 + r, 0x80 + s]"
      by (simp add: utf8_units_def fields)
    have "b < 16" using 3 c a s r by linarith
    moreover have "b = 0 \<longrightarrow> 32 \<le> r" using 3 c a s r by auto
    moreover have "b = 13 \<longrightarrow> r < 32" using 3 sc c a s r by auto
    ultimately show ?thesis
      unfolding u using decode3 [of b r s rest] s r c a by simp
  next
    case 4
    then have u: "utf8_units c = [0xF0 + q, 0x80 + t, 0x80 + r, 0x80 + s]"
      by (simp add: utf8_units_def fields)
    have "q < 5" using 4 sc c a b s r t by linarith
    moreover have "q = 0 \<longrightarrow> 16 \<le> t" using 4 c a b s r t by auto
    moreover have "q = 4 \<longrightarrow> t < 16" using 4 sc c a b s r t by auto
    ultimately show ?thesis
      unfolding u using decode4 [of q t r s rest] s r t c a b by simp
  qed
qed

lemma utf8_roundtrip_points:
  "list_all scalar_value cs \<Longrightarrow>
     utf8_decoder 0 0 0x80 0xBF (concat (map utf8_units cs) @ rest) =
       cs @ utf8_decoder 0 0 0x80 0xBF rest"
  by (induction cs) (simp_all add: utf8_roundtrip_point)

lemma utf8_units_bytes: "c < 0x110000 \<Longrightarrow> list_all (\<lambda>u. u < 256) (utf8_units c)"
proof -
  assume c: "c < 0x110000"
  have m: "\<And>x::nat. x mod 64 < 128"
  proof -
    fix x :: nat
    have "x mod 64 < 64" by simp
    then show "x mod 64 < 128" by linarith
  qed
  have "c < 0x800 \<Longrightarrow> c div 64 < 32" by (rule less_mult_imp_div_less) simp
  moreover have "c < 0x10000 \<Longrightarrow> c div 4096 < 16" by (rule less_mult_imp_div_less) simp
  moreover have "c div 262144 < 5" using c by (intro less_mult_imp_div_less) simp
  ultimately show ?thesis
    using m [of c] m [of "c div 64"] m [of "c div 4096"]
    by (auto simp: utf8_units_def)
qed


lemma unit_lt: "unat (u :: 16 word) < 65536"
  using unsigned_less [of u, where 'a=nat] by simp

lemma utf16_code_points_scalar:
  "list_all (\<lambda>u. u < 65536) us \<Longrightarrow> list_all scalar_value (utf16_code_points us)"
proof (induction us rule: utf16_code_points.induct)
  case 1
  show ?case by simp
next
  case (2 u us)
  show ?case
  proof (cases us)
    case Nil
    then show ?thesis using 2
      by (auto simp: scalar_value_def is_high_surrogate_def is_low_surrogate_def)
  next
    case (Cons v vs)
    then show ?thesis using 2
      by (auto simp: scalar_value_def is_high_surrogate_def is_low_surrogate_def)
  qed
qed

lemma code_units_pair:
  assumes "is_high_surrogate u" "is_low_surrogate v"
  shows "code_units (0x10000 + (u - 0xD800) * 0x400 + (v - 0xDC00)) = [u, v]"
proof -
  define h where "h = u - 0xD800"
  define l where "l = v - 0xDC00"
  have h: "u = 0xD800 + h" "h < 0x400" and l: "v = 0xDC00 + l" "l < 0x400"
    using assms by (auto simp: h_def l_def is_high_surrogate_def is_low_surrogate_def)
  have "(h * 0x400 + l) div 0x400 = h" "(h * 0x400 + l) mod 0x400 = l"
    using l(2) by simp_all
  then show ?thesis
    by (simp add: code_units_def h l)
qed

lemma wellFormed_units_roundtrip:
  "isWellFormed_units us \<Longrightarrow> list_all (\<lambda>u. u < 65536) us \<Longrightarrow>
     concat (map code_units (utf16_code_points us)) = us"
proof (induction us rule: utf16_code_points.induct)
  case 1
  show ?case by simp
next
  case (2 u us)
  note wf = "2.prems"(1) and bound = "2.prems"(2)
  show ?case
  proof (cases "is_high_surrogate u")
    case True
    with wf obtain v vs where us: "us = v # vs" and v: "is_low_surrogate v"
      and vs: "isWellFormed_units vs"
      by (cases us) auto
    have "concat (map code_units (utf16_code_points vs)) = vs"
      using "2.IH"(1) [OF True us v vs] bound us by simp
    then show ?thesis
      using True v us by (simp add: code_units_pair)
  next
    case False
    with wf have nl: "\<not> is_low_surrogate u" and wfu: "isWellFormed_units us"
      by (auto split: if_splits)
    have "concat (map code_units (utf16_code_points us)) = us"
      using "2.IH"(4) [OF False nl wfu] bound by simp
    moreover have "code_units u = [u]"
      using bound by (simp add: code_units_def)
    ultimately show ?thesis
      using False nl by simp
  qed
qed

lemma map_unat_of_nat_bytes:
  "list_all (\<lambda>u. u < 256) xs \<Longrightarrow> map unat (map of_nat xs :: byte list) = xs"
  by (induction xs) (simp_all add: unat_of_nat)

lemma utf8_all_bytes:
  "list_all scalar_value cs \<Longrightarrow> list_all (\<lambda>u. u < 256) (concat (map utf8_units cs))"
  by (induction cs) (simp_all add: utf8_units_bytes scalar_value_def)

lemma units_lt: "list_all (\<lambda>u. u < 65536) (map unat (s :: jsstring))"
  by (induction s) (simp_all add: unit_lt)

lemma TextDecoder_TextEncoder:
  "TextDecoder_decode (TextEncoder_encode s) =
     map of_nat (concat (map code_units (strip_bom (utf16_code_points (map unat s)))))"
proof -
  have sc: "list_all scalar_value (utf16_code_points (map unat s))"
    by (rule utf16_code_points_scalar [OF units_lt])
  have "utf8_decoder 0 0 0x80 0xBF (concat (map utf8_units (utf16_code_points (map unat s)))) =
      utf16_code_points (map unat s)"
    using utf8_roundtrip_points [OF sc, of "[]"] by simp
  then show ?thesis
    using map_unat_of_nat_bytes [OF utf8_all_bytes [OF sc]]
    by (simp add: TextDecoder_decode_def TextEncoder_encode_def del: map_map)
qed

lemma map_of_nat_unat_units: "map of_nat (map unat (s :: jsstring)) = s"
  by (induction s) simp_all

lemma toWellFormed_id: "isWellFormed s \<Longrightarrow> toWellFormed s = s"
  by (simp add: isWellFormed_def toWellFormed_def wellFormed_units_roundtrip units_lt
      map_of_nat_unat_units del: map_map)

lemma utf16_code_points_plain:
  "list_all plain_unit a \<Longrightarrow>
     utf16_code_points (map unat a @ us) = map unat a @ utf16_code_points us"
  by (induction a) (auto simp: plain_unit_def is_high_surrogate_def is_low_surrogate_def)

lemma TextDecoder_TextEncoder_prefixed:
  assumes "list_all plain_unit a" "a \<noteq> []"
  shows "TextDecoder_decode (TextEncoder_encode (a @ d)) = a @ toWellFormed d"
proof -
  obtain x xs where a: "a = x # xs" using assms(2) by (cases a) auto
  have "unat x \<noteq> 0xFEFF" using assms(1) a by (auto simp: plain_unit_def)
  then have "strip_bom (map unat a @ utf16_code_points (map unat d)) =
      map unat a @ utf16_code_points (map unat d)"
    by (simp add: strip_bom_def a)
  moreover have "concat (map code_units (map unat a)) = map unat a"
  proof (induction a)
    case Nil
    show ?case by simp
  next
    case (Cons y ys)
    have "code_units (unat y) = [unat y]"
      using unit_lt [of y] by (simp add: code_units_def)
    with Cons show ?case by simp
  qed
  ultimately show ?thesis
    by (simp add: TextDecoder_TextEncoder utf16_code_points_plain [OF assms(1)]
        toWellFormed_def map_of_nat_unat_units del: map_map)
qed


section \<open>Lemmas: AES-CBC and the helper module\<close>

declare cbc_encrypt.simps [simp del]
declare cbc_decrypt.simps [simp del]

lemma length_xor_block: "length (xor_block a b) = min (length a) (length b)"
  by (simp add: xor_block_def)

lemma xor_block_cancel: "length a = length b \<Longrightarrow> xor_block (xor_block a b) b = a"
proof (induction a arbitrary: b)
  case Nil
  show ?case by (simp add: xor_block_def)
next
  case (Cons x xs)
  then obtain y ys where b: "b = y # ys" by (cases b) auto
  have "xor_block (xor_block xs ys) ys = xs" using Cons b by simp
  then show ?case by (simp add: xor_block_def b xor.assoc)
qed

lemma cbc_encrypt_Nil: "cbc_encrypt E prev [] = []"
  by (simp add: cbc_encrypt.simps)

lemma cbc_decrypt_Nil: "cbc_decrypt D prev [] = []"
  by (simp add: cbc_decrypt.simps)

lemma cbc_encrypt_step: "bs \<noteq> [] \<Longrightarrow> cbc_encrypt E prev bs =
    E (xor_block (take 16 bs) prev) @ cbc_encrypt E (E (xor_block (take 16 bs) prev)) (drop 16 bs)"
  by (subst cbc_encrypt.simps) simp

lemma cbc_decrypt_step: "cs \<noteq> [] \<Longrightarrow> cbc_decrypt D prev cs =
    xor_block (D (take 16 cs)) prev @ cbc_decrypt D (take 16 cs) (drop 16 cs)"
  by (subst cbc_decrypt.simps) simp

lemma whole_blocks: "bs \<noteq> [] \<Longrightarrow> length bs mod 16 = 0 \<Longrightarrow> 16 \<le> length (bs :: 'a list)"
  by (cases "length bs < 16") auto

lemma cbc_roundtrip:
  "block_perm E D \<Longrightarrow> length prev = 16 \<Longrightarrow> length bs mod 16 = 0 \<Longrightarrow>
     cbc_decrypt D prev (cbc_encrypt E prev bs) = bs \<and>
     length (cbc_encrypt E prev bs) = length bs"
proof (induction E prev bs rule: cbc_encrypt.induct)
  case (1 E prev bs)
  show ?case
  proof (cases "bs = []")
    case True
    then show ?thesis by (simp add: cbc_encrypt_Nil cbc_decrypt_Nil)
  next
    case False
    define x where "x = xor_block (take 16 bs) prev"
    define c where "c = E x"
    have len: "16 \<le> length bs" using False "1.prems"(3) by (rule whole_blocks)
    then have lx: "length x = 16" using "1.prems"(2) by (simp add: x_def length_xor_block)
    then have lc: "length c = 16" and dc: "D c = x"
      using "1.prems"(1) by (simp_all add: c_def block_perm_def)
    have rest: "length (drop 16 bs) mod 16 = 0"
      using "1.prems"(3) len by (simp add: mod_diff_eq [symmetric] le_mod_geq)
    have ih: "cbc_decrypt D c (cbc_encrypt E c (drop 16 bs)) = drop 16 bs \<and>
        length (cbc_encrypt E c (drop 16 bs)) = length (drop 16 bs)"
      using "1.IH" [OF False "1.prems"(1) _ rest] lc by (simp add: c_def x_def)
    have enc: "cbc_encrypt E prev bs = c @ cbc_encrypt E c (drop 16 bs)"
      using False by (simp add: cbc_encrypt_step c_def x_def)
    have first: "xor_block (D c) prev = take 16 bs"
      unfolding dc x_def by (rule xor_block_cancel) (simp add: "1.prems"(2) len)
    have "cbc_decrypt D prev (c @ cbc_encrypt E c (drop 16 bs)) =
        take 16 bs @ cbc_decrypt D c (cbc_encrypt E c (drop 16 bs))"
    proof -
      have ne: "c @ cbc_encrypt E c (drop 16 bs) \<noteq> []" using lc by auto
      show ?thesis
        unfolding cbc_decrypt_step [OF ne] using lc first by simp
    qed
    then show ?thesis using ih enc lc len by simp
  qed
qed


lemma aes_ok_block_perm:
  "aes_ok be \<Longrightarrow> block_perm (aes_encrypt_block be k) (aes_decrypt_block be k)"
  by (simp add: aes_ok_def)

lemma pad_length_range: "0 < 16 - n mod 16 \<and> 16 - n mod 16 \<le> (16::nat)"
  by simp

lemma unat8: "n < 256 \<Longrightarrow> unat (of_nat n :: byte) = n"
  by (simp add: unat_of_nat)

lemma unat_pad_byte: "unat (of_nat (16 - n mod 16) :: byte) = 16 - n mod 16"
  by (rule unat8) arith

lemma length_pkcs7_pad: "length (pkcs7_pad bs) mod 16 = 0"
proof -
  define q where "q = length bs div 16"
  define r where "r = length bs mod 16"
  have n: "length bs = q * 16 + r" and r: "r < 16" by (simp_all add: q_def r_def)
  have "length (pkcs7_pad bs) = length bs + (16 - r)"
    by (simp add: pkcs7_pad_def r_def)
  also have "\<dots> = (q + 1) * 16" using n r by simp
  finally show ?thesis by simp
qed

lemma pkcs7_pad_nonempty: "pkcs7_pad bs \<noteq> []"
  by (simp add: pkcs7_pad_def)

lemma pkcs7_roundtrip: "pkcs7_unpad (pkcs7_pad bs) = Some bs"
proof -
  define p where "p = 16 - length bs mod 16"
  have p: "0 < p" "p \<le> 16" by (simp_all add: p_def)
  have up: "unat (of_nat p :: byte) = p" unfolding p_def by (rule unat_pad_byte)
  have pad: "pkcs7_pad bs = bs @ replicate p (of_nat p)" by (simp add: pkcs7_pad_def p_def)
  have l: "last (bs @ replicate p (of_nat p :: byte)) = of_nat p"
    using p(1) by (cases p) simp_all
  have len: "length (bs @ replicate p (of_nat p :: byte)) - p = length bs" by simp
  show ?thesis
    unfolding pad pkcs7_unpad_def l up len using p
    by (simp add: list_all_iff)
qed

lemma aes_cbc_roundtrip:
  assumes "aes_ok be" "length iv = 16"
  shows "aes_cbc_decrypt be key iv
           (cbc_encrypt (aes_encrypt_block be key) iv (pkcs7_pad data)) = Inr data"
    and "aes_cbc_encrypt be key iv data =
           Inr (cbc_encrypt (aes_encrypt_block be key) iv (pkcs7_pad data))"
proof -
  let ?c = "cbc_encrypt (aes_encrypt_block be key) iv (pkcs7_pad data)"
  have rt: "cbc_decrypt (aes_decrypt_block be key) iv ?c = pkcs7_pad data"
    and len: "length ?c = length (pkcs7_pad data)"
    using cbc_roundtrip [OF aes_ok_block_perm [OF assms(1)] assms(2) length_pkcs7_pad]
    by simp_all
  have ne: "?c \<noteq> []" using len pkcs7_pad_nonempty [of data] by auto
  show "aes_cbc_decrypt be key iv ?c = Inr data"
    using ne by (simp add: aes_cbc_decrypt_def assms(2) len length_pkcs7_pad rt pkcs7_roundtrip)
  show "aes_cbc_encrypt be key iv data = Inr ?c"
    by (simp add: aes_cbc_encrypt_def assms(2))
qed

lemma importSymKey_exportSymKey:
  "valid_sym_key key \<Longrightarrow> importSymKey (exportSymKey key) = Inr key"
  by (auto simp: importSymKey_def exportSymKey_def base64_roundtrip valid_sym_key_def)

lemma symEncrypt_value:
  assumes "aes_ok be" "length iv = 16"
  shows "symEncrypt be iv key data =
     Inr (arrayBufferToBase64
       (iv @ cbc_encrypt (aes_encrypt_block be key) iv (pkcs7_pad (TextEncoder_encode data))))"
  by (simp add: symEncrypt_def aes_cbc_roundtrip(2) [OF assms])

lemma symDecrypt_symEncrypt:
  assumes "aes_ok be" "length iv = 16" "valid_sym_key key"
  shows "\<exists>c. symEncrypt be iv key data = Inr c \<and>
     symDecrypt be (exportSymKey key) c = Inr (TextDecoder_decode (TextEncoder_encode data))"
  using assms
  by (simp add: symEncrypt_value symDecrypt_def importSymKey_exportSymKey base64_roundtrip
      aes_cbc_roundtrip(1))

lemma importPubKey_exportPubKey:
  "spki_ok be \<Longrightarrow> importPubKey be (exportPubKey be pub) = Inr pub"
  by (simp add: importPubKey_def exportPubKey_def base64_roundtrip spki_ok_def)

lemma length_base64_256: "length bs = 256 \<Longrightarrow> length (arrayBufferToBase64 bs) = 344"
  by (simp add: length_arrayBufferToBase64)

lemma rsaDecrypt_rsaEncrypt:
  assumes "spki_ok be" "rsa_ok be" "length (TextEncoder_encode m) \<le> 190"
  shows "\<exists>c. rsaEncrypt be seed m (exportPubKey be (rsa_public_of be priv)) = Inr c \<and>
     length c = 344 \<and>
     rsaDecrypt be c priv = Inr (TextDecoder_decode (TextEncoder_encode m))"
proof -
  obtain c where c: "rsa_oaep_encrypt be (rsa_public_of be priv) seed (TextEncoder_encode m) = Some c"
      "length c = 256" "rsa_oaep_decrypt be priv c = Some (TextEncoder_encode m)"
    using assms(2,3) unfolding rsa_ok_def by blast
  show ?thesis
    using c by (simp add: rsaEncrypt_def rsaDecrypt_def importPubKey_exportPubKey [OF assms(1)]
        base64_roundtrip length_base64_256)
qed


section \<open>Lemmas: numbers in strings, ASCII text\<close>

lemma foldl_digits_snoc:
  "foldl (\<lambda>a d. 10 * a + d) a (xs @ [d]) = 10 * foldl (\<lambda>a d. 10 * a + d) a xs + (d::nat)"
  by simp

lemma decimal_digits_value: "foldl (\<lambda>a d. 10 * a + d) 0 (decimal_digits n) = n"
proof (induction n rule: decimal_digits.induct)
  case (1 n)
  show ?case
  proof (cases "n < 10")
    case True
    then show ?thesis by (simp add: decimal_digits.simps [of n])
  next
    case False
    then show ?thesis using 1 by (simp add: decimal_digits.simps [of n])
  qed
qed

lemma decimal_digits_lt10: "list_all (\<lambda>d. d < 10) (decimal_digits n)"
proof (induction n rule: decimal_digits.induct)
  case (1 n)
  show ?case
  proof (cases "n < 10")
    case True
    then show ?thesis by (simp add: decimal_digits.simps [of n])
  next
    case False
    then show ?thesis using 1 by (simp add: decimal_digits.simps [of n])
  qed
qed

lemma length_decimal_digits: "0 < k \<Longrightarrow> n < 10 ^ k \<Longrightarrow> length (decimal_digits n) \<le> k"
proof (induction n arbitrary: k rule: decimal_digits.induct)
  case (1 n)
  show ?case
  proof (cases "n < 10")
    case True
    then show ?thesis using "1.prems" by (simp add: decimal_digits.simps [of n])
  next
    case False
    then obtain k' where k: "k = Suc k'" and k': "0 < k'"
      using "1.prems" by (cases k; cases "k - 1") auto
    have "n div 10 < 10 ^ k'"
      using "1.prems"(2) k by (simp add: less_mult_imp_div_less mult.commute)
    then have "length (decimal_digits (n div 10)) \<le> k'"
      using "1.IH" [OF False k'] by simp
    then show ?thesis using False k by (simp add: decimal_digits.simps [of n])
  qed
qed

lemma decimal_digits_nonempty: "decimal_digits n \<noteq> []"
  by (subst decimal_digits.simps) simp

lemma digit_unit: "d < 10 \<Longrightarrow> unat (digit_char d) = 48 + d"
  unfolding digit_char_def by (rule unat16) simp

lemma digits_value_map:
  "list_all (\<lambda>d. d < 10) ds \<Longrightarrow>
     foldl (\<lambda>a c. 10 * a + (unat c - 48)) a (map digit_char ds) =
     foldl (\<lambda>a d. 10 * a + d) a ds"
  by (induction ds arbitrary: a) (simp_all add: digit_unit)

lemma digits_value_number_toString: "digits_value (number_toString n) = n"
  by (simp add: digits_value_def number_toString_def digits_value_map decimal_digits_lt10
      decimal_digits_value)

lemma number_toString_digits: "list_all is_digit (number_toString n)"
proof -
  have "list_all (\<lambda>d. d < 10) ds \<Longrightarrow>
      list_all is_digit (map digit_char ds)" for ds
    by (induction ds) (simp_all add: is_digit_def digit_unit)
  then show ?thesis by (simp add: number_toString_def decimal_digits_lt10)
qed

lemma is_digit_zero: "is_digit 48"
  by (simp add: is_digit_def)

lemma padStart_digits: "list_all is_digit (padStart 10 48 (number_toString n))"
proof -
  have "list_all is_digit (replicate z 48)" for z
    by (induction z) (simp_all add: is_digit_zero)
  then show ?thesis
    by (simp add: padStart_def number_toString_digits)
qed

lemma length_padStart:
  "n < 10 ^ 10 \<Longrightarrow> length (padStart 10 48 (number_toString n)) = 10"
proof -
  assume "n < 10 ^ 10"
  then have "length (decimal_digits n) \<le> 10"
    by (intro length_decimal_digits) simp_all
  then show ?thesis by (simp add: padStart_def number_toString_def)
qed

lemma digits_value_zeros: "digits_value (replicate z 48 @ s) = digits_value s"
  by (induction z) (simp_all add: digits_value_def)

lemma digits_value_padStart: "digits_value (padStart 10 48 (number_toString n)) = n"
  by (simp add: padStart_def digits_value_zeros digits_value_number_toString)

lemma digit_not_space: "is_digit c \<Longrightarrow> \<not> is_white_space c"
  by (auto simp: is_digit_def is_white_space_def)

lemma digit_not_sign: "is_digit c \<Longrightarrow> c \<noteq> 43 \<and> c \<noteq> 45"
  by (auto simp: is_digit_def)

lemma parseInt_digits:
  assumes "list_all is_digit s" "s \<noteq> []"
  shows "parseInt s = Num (int (digits_value s))"
proof -
  obtain c cs where s: "s = c # cs" using assms(2) by (cases s) auto
  have c: "is_digit c" using assms(1) s by simp
  have 1: "dropWhile is_white_space s = s" using digit_not_space [OF c] s by simp
  have 2: "strip_sign s = s" using digit_not_sign [OF c] s by (simp add: strip_sign_def)
  have 3: "takeWhile is_digit s = s" using assms(1) by (simp add: list_all_iff)
  have 4: "\<not> is_negative s" using digit_not_sign [OF c] s by (simp add: is_negative_def)
  show ?thesis using assms(2) by (simp add: parseInt_def 1 2 3 4)
qed

lemma parseInt_padStart:
  "parseInt (padStart 10 48 (number_toString n)) = Num (int n)"
proof -
  have "padStart 10 48 (number_toString n) \<noteq> []"
    using decimal_digits_nonempty [of n] by (simp add: padStart_def number_toString_def)
  then show ?thesis
    using parseInt_digits [OF padStart_digits] by (simp add: digits_value_padStart)
qed

lemma digit_plain: "is_digit c \<Longrightarrow> plain_unit c"
  by (simp add: is_digit_def plain_unit_def)

lemma digits_plain: "list_all is_digit s \<Longrightarrow> list_all plain_unit s"
  by (induction s) (simp_all add: digit_plain)

lemma unat_base64_char_lt: "unat (base64_char n) < 0x80"
proof -
  have "base64_code n < 65536" using base64_code_lt [of n] by linarith
  then have "unat (base64_char n) = base64_code n"
    unfolding base64_char_def by (rule unat16)
  then show ?thesis using base64_code_lt [of n] by simp
qed

lemma base64_ascii: "ascii_only (arrayBufferToBase64 bs)"
  unfolding ascii_only_def
  by (induction bs rule: arrayBufferToBase64.induct) (simp_all add: unat_base64_char_lt)

lemma ascii_plain: "ascii_only s \<Longrightarrow> list_all plain_unit s"
  unfolding ascii_only_def by (induction s) (simp_all add: plain_unit_def)

lemma toWellFormed_plain: "list_all plain_unit s \<Longrightarrow> toWellFormed s = s"
proof -
  assume p: "list_all plain_unit s"
  have "concat (map code_units (map unat s)) = map unat s"
  proof (induction s)
    case Nil
    show ?case by simp
  next
    case (Cons y ys)
    have "code_units (unat y) = [unat y]"
      using unit_lt [of y] by (simp add: code_units_def)
    with Cons show ?case by simp
  qed
  then show ?thesis
    using utf16_code_points_plain [OF p, of "[]"]
    by (simp add: toWellFormed_def map_of_nat_unat_units del: map_map)
qed

lemma toWellFormed_Nil: "toWellFormed [] = []"
  by (simp add: toWellFormed_def)

lemma TextDecoder_TextEncoder_plain:
  "list_all plain_unit s \<Longrightarrow> TextDecoder_decode (TextEncoder_encode s) = s"
proof (cases "s = []")
  case True
  then show ?thesis
    by (simp add: TextDecoder_decode_def TextEncoder_encode_def strip_bom_def)
next
  case False
  assume "list_all plain_unit s"
  then show ?thesis
    using TextDecoder_TextEncoder_prefixed [OF _ False, of "[]"] by (simp add: toWellFormed_Nil)
qed

lemma TextEncoder_ascii: "ascii_only s \<Longrightarrow> length (TextEncoder_encode s) = length s"
proof -
  assume a: "ascii_only s"
  have "concat (map utf8_units (map unat s)) = map unat s"
    using a unfolding ascii_only_def by (induction s) (simp_all add: utf8_units_def)
  then show ?thesis
    using utf16_code_points_plain [OF ascii_plain [OF a], of "[]"]
    by (simp add: TextEncoder_encode_def del: map_map)
qed

lemma exported_key_fits:
  "valid_sym_key key \<Longrightarrow> length (TextEncoder_encode (exportSymKey key)) \<le> 190"
  by (auto simp: TextEncoder_ascii base64_ascii exportSymKey_def length_arrayBufferToBase64
      valid_sym_key_def)

section \<open>Lemmas: one layer, three layers, the shuffle\<close>

lemma symEncrypt_ascii: "symEncrypt be iv key data = Inr c \<Longrightarrow> ascii_only c"
  by (auto simp: symEncrypt_def base64_ascii split: sum.splits)

lemma rsaEncrypt_ascii: "rsaEncrypt be seed m pub = Inr c \<Longrightarrow> ascii_only c"
  by (auto simp: rsaEncrypt_def base64_ascii split: sum.splits option.splits)

lemma ascii_only_append: "ascii_only a \<Longrightarrow> ascii_only b \<Longrightarrow> ascii_only (a @ b)"
  by (simp add: ascii_only_def)

lemma chiffrer_couche_ascii:
  "chiffrer_couche be cle iv seed port pub donnees = Inr env \<Longrightarrow> ascii_only env"
  by (auto simp: chiffrer_couche_def split: sum.splits
      intro: ascii_only_append symEncrypt_ascii rsaEncrypt_ascii)

lemma couche_roundtrip:
  assumes "aes_ok be" "spki_ok be" "rsa_ok be" "valid_sym_key cle" "length iv = 16"
    "port < 10 ^ 10"
  shows "\<exists>env. chiffrer_couche be cle iv seed port (exportPubKey be (rsa_public_of be priv))
             donnees = Inr env \<and>
           dechiffrer_couche be priv env = Inr (Num (int port), toWellFormed donnees)"
proof -
  define addr where "addr = padStart 10 48 (number_toString port)"
  have la: "length addr = 10" unfolding addr_def by (rule length_padStart [OF assms(6)])
  have pa: "list_all plain_unit addr"
    unfolding addr_def by (rule digits_plain [OF padStart_digits])
  have na: "addr \<noteq> []" using la by auto
  obtain c where c: "symEncrypt be iv cle (addr @ donnees) = Inr c"
    and dc: "symDecrypt be (exportSymKey cle) c =
        Inr (TextDecoder_decode (TextEncoder_encode (addr @ donnees)))"
    using symDecrypt_symEncrypt [OF assms(1,5,4)] by blast
  obtain ek where ek: "rsaEncrypt be seed (exportSymKey cle)
        (exportPubKey be (rsa_public_of be priv)) = Inr ek"
    and lek: "length ek = 344"
    and dek: "rsaDecrypt be ek priv =
        Inr (TextDecoder_decode (TextEncoder_encode (exportSymKey cle)))"
    using rsaDecrypt_rsaEncrypt [OF assms(2,3) exported_key_fits [OF assms(4)]] by blast
  have key: "TextDecoder_decode (TextEncoder_encode (exportSymKey cle)) = exportSymKey cle"
    by (rule TextDecoder_TextEncoder_plain)
      (simp add: ascii_plain base64_ascii exportSymKey_def)
  have body_rt: "TextDecoder_decode (TextEncoder_encode (addr @ donnees)) =
      addr @ toWellFormed donnees"
    by (rule TextDecoder_TextEncoder_prefixed [OF pa na])
  have enc: "chiffrer_couche be cle iv seed port (exportPubKey be (rsa_public_of be priv))
      donnees = Inr (ek @ c)"
    using c ek by (simp add: chiffrer_couche_def addr_def)
  have "dechiffrer_couche be priv (ek @ c) =
      Inr (parseInt addr, toWellFormed donnees)"
    using lek la
    by (simp add: dechiffrer_couche_def dek key importSymKey_exportSymKey [OF assms(4)] dc body_rt)
  then show ?thesis
    using enc by (simp add: addr_def parseInt_padStart)
qed

lemma oignon_chain:
  assumes "aes_ok be" "spki_ok be" "rsa_ok be"
    "valid_sym_key (cleEntree dr)" "valid_sym_key (cleIntermediaire dr)"
    "valid_sym_key (cleSortie dr)"
    "length (ivEntree dr) = 16" "length (ivIntermediaire dr) = 16" "length (ivSortie dr) = 16"
    "BASE_USER_PORT conf + destinationUserId body < 10 ^ 10"
    "BASE_ONION_ROUTER_PORT conf + nodeId nS < 10 ^ 10"
    "BASE_ONION_ROUTER_PORT conf + nodeId nM < 10 ^ 10"
    "pubKey nE = exportPubKey be (rsa_public_of be privE)"
    "pubKey nM = exportPubKey be (rsa_public_of be privM)"
    "pubKey nS = exportPubKey be (rsa_public_of be privS)"
  shows "\<exists>e1 e2 e3.
      construire_oignon be conf dr body (nE # nM # nS # rest) = Inr e1 \<and>
      dechiffrer_couche be privE e1 =
        Inr (Num (int (BASE_ONION_ROUTER_PORT conf + nodeId nM)), e2) \<and>
      dechiffrer_couche be privM e2 =
        Inr (Num (int (BASE_ONION_ROUTER_PORT conf + nodeId nS)), e3) \<and>
      dechiffrer_couche be privS e3 =
        Inr (Num (int (BASE_USER_PORT conf + destinationUserId body)),
             toWellFormed (message body))"
proof -
  obtain e3 where e3: "chiffrer_couche be (cleSortie dr) (ivSortie dr) (seedSortie dr)
        (BASE_USER_PORT conf + destinationUserId body) (pubKey nS) (message body) = Inr e3"
    and d3: "dechiffrer_couche be privS e3 =
        Inr (Num (int (BASE_USER_PORT conf + destinationUserId body)),
             toWellFormed (message body))"
    using couche_roundtrip [OF assms(1,2,3,6,9,10)] unfolding assms(15) by blast
  obtain e2 where e2: "chiffrer_couche be (cleIntermediaire dr) (ivIntermediaire dr)
        (seedIntermediaire dr) (BASE_ONION_ROUTER_PORT conf + nodeId nS) (pubKey nM) e3 = Inr e2"
    and d2: "dechiffrer_couche be privM e2 =
        Inr (Num (int (BASE_ONION_ROUTER_PORT conf + nodeId nS)), toWellFormed e3)"
    using couche_roundtrip [OF assms(1,2,3,5,8,11)] unfolding assms(14) by blast
  obtain e1 where e1: "chiffrer_couche be (cleEntree dr) (ivEntree dr) (seedEntree dr)
        (BASE_ONION_ROUTER_PORT conf + nodeId nM) (pubKey nE) e2 = Inr e1"
    and d1: "dechiffrer_couche be privE e1 =
        Inr (Num (int (BASE_ONION_ROUTER_PORT conf + nodeId nM)), toWellFormed e2)"
    using couche_roundtrip [OF assms(1,2,3,4,7,12)] unfolding assms(13) by blast
  have w3: "toWellFormed e3 = e3"
    by (rule toWellFormed_plain [OF ascii_plain [OF chiffrer_couche_ascii [OF e3]]])
  have w2: "toWellFormed e2 = e2"
    by (rule toWellFormed_plain [OF ascii_plain [OF chiffrer_couche_ascii [OF e2]]])
  have "construire_oignon be conf dr body (nE # nM # nS # rest) = Inr e1"
    by (simp add: construire_oignon_def e3 e2 e1)
  then show ?thesis using d1 d2 d3 w2 w3 by simp
qed

lemma draw_in_range:
  assumes "0 \<le> r" "r < 1"
  shows "nat \<lfloor>r * real (Suc i + 1)\<rfloor> \<le> Suc i"
proof -
  have "r * real (Suc i + 1) < real (Suc i + 1)"
    using assms(2) by simp
  then have "\<lfloor>r * real (Suc i + 1)\<rfloor> < int (Suc i + 1)"
    by (simp add: floor_less_iff)
  then show ?thesis by simp
qed

lemma melanger_mset:
  "(\<forall>k. 0 \<le> random k \<and> random k < 1) \<Longrightarrow> i < length xs \<Longrightarrow>
     mset (melanger random k i xs) = mset xs"
proof (induction i arbitrary: k xs)
  case 0
  show ?case by simp
next
  case (Suc i)
  define j where "j = nat \<lfloor>random k * real (Suc i + 1)\<rfloor>"
  have j: "j \<le> Suc i" unfolding j_def using Suc.prems(1) by (intro draw_in_range) simp_all
  then have jl: "j < length xs" using Suc.prems(2) by simp
  have sw: "mset (xs[Suc i := xs ! j, j := xs ! Suc i]) = mset xs"
    using mset_swap [OF jl Suc.prems(2)] .
  have "mset (melanger random (Suc k) i (xs[Suc i := xs ! j, j := xs ! Suc i])) =
      mset (xs[Suc i := xs ! j, j := xs ! Suc i])"
    using Suc.prems by (intro Suc.IH) simp_all
  then show ?case using sw by (simp add: j_def)
qed

lemma melanger_permutation:
  "(\<forall>k. 0 \<le> random k \<and> random k < 1) \<Longrightarrow>
     mset (melanger random 0 (length xs - 1) xs) = mset xs"
  by (cases "xs = []") (simp_all add: melanger_mset)

lemma melanger_length:
  "(\<forall>k. 0 \<le> random k \<and> random k < 1) \<Longrightarrow>
     length (melanger random 0 (length xs - 1) xs) = length xs"
  using melanger_permutation [of random xs] mset_eq_length by blast

section \<open>Lemmas: the instance of the primitives\<close>

lemma exemple_aes_ok: "aes_ok exemple_backend"
  by (simp add: aes_ok_def block_perm_def exemple_backend_def comp_def)

lemma exemple_spki_ok: "spki_ok exemple_backend"
  by (simp add: spki_ok_def exemple_backend_def)

lemma exemple_rsa_ok: "rsa_ok exemple_backend"
proof -
  have "unat (of_nat n :: byte) = n" if "n \<le> 190" for n
    using that by (intro unat8) simp
  then show ?thesis
    by (simp add: rsa_ok_def exemple_backend_def)
qed


lemma exemple_random:
  "\<forall>k. (0::real) \<le> math_random (exemple_draws reg) k \<and> math_random (exemple_draws reg) k < 1"
  by (simp add: exemple_draws_def)

section \<open>Lemmas: text that survives encoding and decoding\<close>

lemma strip_bom_code_points:
  assumes "us = [] \<or> hd us \<noteq> 0xFEFF"
  shows "strip_bom (utf16_code_points us) = utf16_code_points us"
proof (cases us)
  case Nil
  then show ?thesis by (simp add: strip_bom_def)
next
  case (Cons u rest)
  with assms have u: "u \<noteq> 0xFEFF" by simp
  show ?thesis
  proof (cases rest)
    case Nil
    then show ?thesis using u Cons
      by (simp add: strip_bom_def is_high_surrogate_def is_low_surrogate_def)
  next
    case (Cons v vs)
    then show ?thesis using u \<open>us = u # rest\<close>
      by (simp add: strip_bom_def is_high_surrogate_def is_low_surrogate_def)
  qed
qed

lemma TextDecoder_TextEncoder_wellFormed:
  assumes "isWellFormed s" "\<not> startsWithBOM s"
  shows "TextDecoder_decode (TextEncoder_encode s) = s"
proof -
  have "map unat s = [] \<or> hd (map unat s) \<noteq> 0xFEFF"
  proof (cases s)
    case Nil
    then show ?thesis by simp
  next
    case (Cons u rest)
    with assms(2) have "u \<noteq> 0xFEFF" by (simp add: startsWithBOM_def)
    moreover have "u = 0xFEFF" if h: "unat u = 0xFEFF"
    proof -
      have "of_nat (unat u) = (of_nat 0xFEFF :: 16 word)" by (simp only: h)
      then show ?thesis by simp
    qed
    ultimately have "unat u \<noteq> 0xFEFF" by blast
    then show ?thesis using Cons by simp
  qed
  then have "strip_bom (utf16_code_points (map unat s)) = utf16_code_points (map unat s)"
    by (rule strip_bom_code_points)
  then show ?thesis
    using toWellFormed_id [OF assms(1)]
    by (simp add: TextDecoder_TextEncoder toWellFormed_def)
qed

lemma bom_roundtrip: "TextDecoder_decode (TextEncoder_encode [0xFEFF]) = []"
  by (simp add: TextDecoder_TextEncoder strip_bom_def is_high_surrogate_def
      is_low_surrogate_def)

lemma sym_roundtrip_value:
  assumes "aes_ok be" "length iv = 16" "valid_sym_key key"
  shows "sym_roundtrip be iv key P = Inr (TextDecoder_decode (TextEncoder_encode P))"
  using symDecrypt_symEncrypt [OF assms, of P] by (auto simp: sym_roundtrip_def)



section \<open>Lemmas: the handlers\<close>

lemma selection_mset:
  "(\<forall>k. 0 \<le> random k \<and> random k < 1) \<Longrightarrow> length nodes \<le> n \<Longrightarrow>
     mset (selectionnerNoeudsAleatoires random nodes n) = mset nodes"
proof -
  assume r: "\<forall>k. 0 \<le> random k \<and> random k < 1" and n: "length nodes \<le> n"
  have "take n (melanger random 0 (length nodes - 1) nodes) =
      melanger random 0 (length nodes - 1) nodes"
    using melanger_length [OF r, of nodes] n by (intro take_all) simp
  then show ?thesis
    unfolding selectionnerNoeudsAleatoires_def using melanger_permutation [OF r, of nodes]
    by (simp del: One_nat_def)
qed

lemma construire_oignon_short:
  "length circuit < 3 \<Longrightarrow> construire_oignon be conf dr body circuit = Inl TypeError"
  by (auto simp: construire_oignon_def split: list.splits)

lemma construire_oignon_Inr_length:
  "construire_oignon be conf dr body circuit = Inr env \<Longrightarrow> 3 \<le> length circuit"
  by (auto simp: construire_oignon_def split: list.splits)

lemma sendMessage_delivered:
  assumes "registry dr = Some nodes"
    and "snd (snd (sendMessage be conf net dr st body)) = Some (p, d)"
  shows "p = BASE_ONION_ROUTER_PORT conf +
           nodeId (selectionnerNoeudsAleatoires (math_random dr) nodes 3 ! 0) \<and>
         construire_oignon be conf dr body
           (selectionnerNoeudsAleatoires (math_random dr) nodes 3) = Inr d"
proof -
  from assms obtain env where env: "construire_oignon be conf dr body
      (selectionnerNoeudsAleatoires (math_random dr) nodes 3) = Inr env"
    by (auto simp: sendMessage_def split: sum.splits)
  have "selectionnerNoeudsAleatoires (math_random dr) nodes 3 \<noteq> []"
    using construire_oignon_Inr_length [OF env] by auto
  then have "hd (selectionnerNoeudsAleatoires (math_random dr) nodes 3) =
      selectionnerNoeudsAleatoires (math_random dr) nodes 3 ! 0"
    by (rule hd_conv_nth)
  then show ?thesis
    using assms env by (auto simp: sendMessage_def split: if_splits)
qed

lemma router_message_decrypted:
  assumes "dechiffrer_couche be priv msg = Inr (dest, next)"
  shows "router_message be net priv st msg =
     (st\<lparr>dernierMessageChiffreRecu := Some msg,
         dernierMessageDechiffreRecu := Some next,
         derniereDestinationMessage := Some dest\<rparr>,
      if fetch_message net dest next then Success200 else Error500,
      if fetch_message net dest next then Some (dest, next) else None)"
  by (simp add: router_message_def assms)

lemma router_message_rejected:
  assumes "dechiffrer_couche be priv msg = Inl e"
  shows "router_message be net priv st msg =
     (st\<lparr>dernierMessageChiffreRecu := Some msg\<rparr>, Error500, None)"
  by (simp add: router_message_def assms)

section \<open>Lemmas: the example run\<close>

lemma exemple_hello_plain: "list_all plain_unit (ascii ''hello'')"
  by (simp add: ascii_def plain_unit_def)

lemma exemple_enveloppe_layer:
  "chiffrer_couche exemple_backend (replicate 32 3) (replicate 16 0) [] 3001
       (exportPubKey exemple_backend 12) (ascii ''hello'') = Inr exemple_enveloppe \<and>
   dechiffrer_couche exemple_backend 12 exemple_enveloppe = Inr (Num 3001, ascii ''hello'')"
proof -
  have pub: "rsa_public_of exemple_backend 12 = 12" by (simp add: exemple_backend_def)
  obtain env where env: "chiffrer_couche exemple_backend (replicate 32 3) (replicate 16 0) []
        3001 (exportPubKey exemple_backend 12) (ascii ''hello'') = Inr env"
    and dec: "dechiffrer_couche exemple_backend 12 env =
        Inr (Num (int 3001), toWellFormed (ascii ''hello''))"
    using couche_roundtrip [OF exemple_aes_ok exemple_spki_ok exemple_rsa_ok,
        of "replicate 32 3" "replicate 16 0" 3001 "[]" 12 "ascii ''hello''"]
    unfolding pub by (auto simp: valid_sym_key_def)
  have "exemple_enveloppe = env" by (simp add: exemple_enveloppe_def env)
  then show ?thesis
    using env dec by (simp add: toWellFormed_plain [OF exemple_hello_plain])
qed

lemma exemple_selection:
  "selectionnerNoeudsAleatoires (math_random (exemple_draws reg)) exemple_noeuds 3 =
     [exemple_noeuds ! 1, exemple_noeuds ! 2, exemple_noeuds ! 0]"
  by (simp add: selectionnerNoeudsAleatoires_def exemple_draws_def exemple_noeuds_def
      numeral_2_eq_2)

lemma exemple_distinct: "distinct (map nodeId exemple_noeuds)"
  by (simp add: exemple_noeuds_def)

lemma exemple_valid_keys:
  "valid_sym_key (cleEntree (exemple_draws reg))"
  "valid_sym_key (cleIntermediaire (exemple_draws reg))"
  "valid_sym_key (cleSortie (exemple_draws reg))"
  "length (ivEntree (exemple_draws reg)) = 16"
  "length (ivIntermediaire (exemple_draws reg)) = 16"
  "length (ivSortie (exemple_draws reg)) = 16"
  by (simp_all add: exemple_draws_def valid_sym_key_def)

lemma exemple_oignon_shuffled:
  "\<exists>env. construire_oignon exemple_backend exemple_conf (exemple_draws reg)
       \<lparr>message = msg, destinationUserId = 1\<rparr>
       [exemple_noeuds ! 1, exemple_noeuds ! 2, exemple_noeuds ! 0] = Inr env"
proof -
  have "\<exists>e1 e2 e3.
      construire_oignon exemple_backend exemple_conf (exemple_draws reg)
        \<lparr>message = msg, destinationUserId = 1\<rparr>
        (exemple_noeuds ! 1 # exemple_noeuds ! 2 # exemple_noeuds ! 0 # []) = Inr e1 \<and>
      dechiffrer_couche exemple_backend 11 e1 =
        Inr (Num (int (BASE_ONION_ROUTER_PORT exemple_conf + nodeId (exemple_noeuds ! 2))), e2) \<and>
      dechiffrer_couche exemple_backend 12 e2 =
        Inr (Num (int (BASE_ONION_ROUTER_PORT exemple_conf + nodeId (exemple_noeuds ! 0))), e3) \<and>
      dechiffrer_couche exemple_backend 10 e3 =
        Inr (Num (int (BASE_USER_PORT exemple_conf +
               destinationUserId \<lparr>message = msg, destinationUserId = 1\<rparr>)),
             toWellFormed (message \<lparr>message = msg, destinationUserId = 1\<rparr>))"
    by (rule oignon_chain [OF exemple_aes_ok exemple_spki_ok exemple_rsa_ok exemple_valid_keys])
      (simp_all add: exemple_conf_def exemple_noeuds_def exemple_backend_def)
  then show ?thesis by blast
qed


section \<open>Lemmas: the layers and the chain of routers\<close>







section \<open>Lemmas: another initialisation vector\<close>






section \<open>Lemmas: more of the example run\<close>




















chapter \<open>The properties\<close>

section \<open>End to end\<close>




section \<open>The symmetric round trip\<close>

text \<open>
  C2. Decrypting, with the exported key, what \<^verbatim>\<open>symEncrypt\<close> produced returns the text
  that \<^verbatim>\<open>TextDecoder\<close> reads from the bytes \<^verbatim>\<open>TextEncoder\<close> wrote for the plaintext.
  That text is the plaintext whenever the plaintext is well formed (no unpaired
  surrogate) and does not begin with U+FEFF; the empty string is such a plaintext. The
  key is any AES key (16, 24 or 32 bytes) and the initialisation vector has 16 bytes.
\<close>

theorem aes_text_roundtrip:
  assumes "aes_ok be" "length iv = 16" "valid_sym_key key"
  shows "sym_roundtrip be iv key P = Inr (TextDecoder_decode (TextEncoder_encode P)) \<and>
     (isWellFormed P \<longrightarrow> \<not> startsWithBOM P \<longrightarrow> sym_roundtrip be iv key P = Inr P)"
  using sym_roundtrip_value [OF assms] TextDecoder_TextEncoder_wellFormed by simp

theorem aes_text_roundtrip_witness:
  "aes_ok exemple_backend \<and> length (replicate 16 0 :: byte list) = 16 \<and>
   valid_sym_key (replicate 32 3) \<and> isWellFormed (ascii ''hello'') \<and>
   \<not> startsWithBOM (ascii ''hello'') \<and>
   sym_roundtrip exemple_backend (replicate 16 0) (replicate 32 3) (ascii ''hello'') =
     Inr (ascii ''hello'') \<and>
   isWellFormed [] \<and> \<not> startsWithBOM [] \<and>
   sym_roundtrip exemple_backend (replicate 16 0) (replicate 32 3) [] = Inr []"
proof -
  have l: "length (replicate 16 0 :: byte list) = 16" by simp
  have v: "valid_sym_key (replicate 32 3)" by (simp add: valid_sym_key_def)
  have w: "isWellFormed (ascii ''hello'')"
    by (simp add: isWellFormed_def ascii_def is_high_surrogate_def is_low_surrogate_def)
  have b: "\<not> startsWithBOM (ascii ''hello'')" by (simp add: startsWithBOM_def ascii_def)
  have w0: "isWellFormed []" by (simp add: isWellFormed_def)
  have b0: "\<not> startsWithBOM []" by (simp add: startsWithBOM_def)
  show ?thesis
    using aes_text_roundtrip [OF exemple_aes_ok l v, of "ascii ''hello''"]
      aes_text_roundtrip [OF exemple_aes_ok l v, of "[]"] exemple_aes_ok l v w b w0 b0
    by blast
qed

text \<open>
  The round trip is not the identity on every string: a plaintext that begins with
  U+FEFF comes back without it, because the decoder takes it for a byte order mark.
  Here the plaintext is the single code unit U+FEFF, a well-formed string, and the
  result is the empty string.
\<close>

theorem aes_text_roundtrip_counterexample:
  "sym_roundtrip exemple_backend (replicate 16 0) (replicate 32 3) [0xFEFF] = Inr [] \<and>
   isWellFormed [0xFEFF]"
  using sym_roundtrip_value [OF exemple_aes_ok, of "replicate 16 0" "replicate 32 3" "[0xFEFF]"]
  by (simp add: valid_sym_key_def bom_roundtrip isWellFormed_def is_high_surrogate_def
      is_low_surrogate_def)

section \<open>The asymmetric round trip\<close>




section \<open>The layers of the envelope\<close>



section \<open>The router's split\<close>

text \<open>
  C5. The router succeeds on an envelope exactly when the first 344 code units decrypt
  under its private key to an importable symmetric key and the remaining code units
  decrypt under that key; the next address is then \<^verbatim>\<open>parseInt\<close> of the first ten code
  units of the plaintext and the payload is the plaintext from the tenth code unit on.
  The offset 344 is the same for every envelope. The handler stores and forwards
  exactly these two values.
\<close>

theorem router_split_and_parse:
  "(dechiffrer_couche be priv msg = Inr (dest, next)) =
     (\<exists>cle key plain.
        rsaDecrypt be (take 344 msg) priv = Inr cle \<and> importSymKey cle = Inr key \<and>
        symDecrypt be cle (drop 344 msg) = Inr plain \<and>
        dest = parseInt (take 10 plain) \<and> next = drop 10 plain) \<and>
   (dechiffrer_couche be priv msg = Inr (dest, next) \<longrightarrow>
      router_message be net priv st msg =
        (st\<lparr>dernierMessageChiffreRecu := Some msg,
            dernierMessageDechiffreRecu := Some next,
            derniereDestinationMessage := Some dest\<rparr>,
         if fetch_message net dest next then Success200 else Error500,
         if fetch_message net dest next then Some (dest, next) else None))"
proof -
  have "(dechiffrer_couche be priv msg = Inr (dest, next)) =
     (\<exists>cle key plain.
        rsaDecrypt be (take 344 msg) priv = Inr cle \<and> importSymKey cle = Inr key \<and>
        symDecrypt be cle (drop 344 msg) = Inr plain \<and>
        dest = parseInt (take 10 plain) \<and> next = drop 10 plain)"
    by (auto simp: dechiffrer_couche_def split: sum.splits)
  then show ?thesis
    using router_message_decrypted [of be priv msg dest "next" net st] by blast
qed

theorem router_split_and_parse_witness:
  "dechiffrer_couche exemple_backend 12 exemple_enveloppe = Inr (Num 3001, ascii ''hello'') \<and>
   (\<exists>cle key plain.
      rsaDecrypt exemple_backend (take 344 exemple_enveloppe) 12 = Inr cle \<and>
      importSymKey cle = Inr key \<and>
      symDecrypt exemple_backend cle (drop 344 exemple_enveloppe) = Inr plain \<and>
      Num 3001 = parseInt (take 10 plain) \<and> ascii ''hello'' = drop 10 plain) \<and>
   router_message exemple_backend reseau_fiable 12 etat_initial exemple_enveloppe =
     (etat_initial\<lparr>dernierMessageChiffreRecu := Some exemple_enveloppe,
         dernierMessageDechiffreRecu := Some (ascii ''hello''),
         derniereDestinationMessage := Some (Num 3001)\<rparr>,
      Success200, Some (Num 3001, ascii ''hello''))"
  using router_split_and_parse [of exemple_backend 12 exemple_enveloppe "Num 3001"
      "ascii ''hello''" reseau_fiable etat_initial] exemple_enveloppe_layer
  by (simp add: fetch_message_def reseau_fiable_def)

section \<open>Too few nodes\<close>

text \<open>
  C6. With fewer than three nodes the selection raises nothing: it returns every node
  of the list, shuffled, a circuit shorter than the one asked for. \<^verbatim>\<open>/sendMessage\<close>
  records that short circuit as the last circuit; the layering then reads the public
  key of a hop that does not exist, which is a \<^verbatim>\<open>TypeError\<close>, and the handler answers
  with its generic error and delivers nothing.
\<close>

theorem short_registry_no_error:
  assumes "\<forall>k. 0 \<le> math_random dr k \<and> math_random dr k < 1"
    and "length nodes < 3" and "registry dr = Some nodes"
  shows "mset (selectionnerNoeudsAleatoires (math_random dr) nodes 3) = mset nodes \<and>
     construire_oignon be conf dr body (selectionnerNoeudsAleatoires (math_random dr) nodes 3) =
       Inl TypeError \<and>
     sendMessage be conf net dr st body =
       (st\<lparr>dernierMessageEnvoye := Some (message body),
           dernierCircuit := map nodeId (selectionnerNoeudsAleatoires (math_random dr) nodes 3)\<rparr>,
        Error500, None)"
proof -
  have m: "mset (selectionnerNoeudsAleatoires (math_random dr) nodes 3) = mset nodes"
    using assms(1,2) by (intro selection_mset) simp_all
  then have "length (selectionnerNoeudsAleatoires (math_random dr) nodes 3) = length nodes"
    by (rule mset_eq_length)
  then have t: "construire_oignon be conf dr body
      (selectionnerNoeudsAleatoires (math_random dr) nodes 3) = Inl TypeError"
    using assms(2) by (intro construire_oignon_short) simp
  show ?thesis using m t by (simp add: sendMessage_def assms(3))
qed

theorem short_registry_no_error_witness:
  "(\<forall>k. 0 \<le> math_random (exemple_draws (Some (take 2 exemple_noeuds))) k \<and>
        math_random (exemple_draws (Some (take 2 exemple_noeuds))) k < 1) \<and>
   length (take 2 exemple_noeuds) < 3 \<and>
   registry (exemple_draws (Some (take 2 exemple_noeuds))) = Some (take 2 exemple_noeuds) \<and>
   sendMessage exemple_backend exemple_conf reseau_fiable
       (exemple_draws (Some (take 2 exemple_noeuds))) exemple_etat
       \<lparr>message = ascii ''hello'', destinationUserId = 1\<rparr> =
     (exemple_etat\<lparr>dernierMessageEnvoye := Some (ascii ''hello''),
        dernierCircuit := map nodeId (selectionnerNoeudsAleatoires
          (math_random (exemple_draws (Some (take 2 exemple_noeuds))))
          (take 2 exemple_noeuds) 3)\<rparr>,
      Error500, None)"
  using short_registry_no_error [of "exemple_draws (Some (take 2 exemple_noeuds))"
      "take 2 exemple_noeuds" exemple_backend exemple_conf
      "\<lparr>message = ascii ''hello'', destinationUserId = 1\<rparr>" reseau_fiable exemple_etat]
  by (simp add: exemple_draws_def exemple_noeuds_def)

text \<open>
  The selection itself does not fail on a short list: asked for three nodes out of two,
  it returns the two.
\<close>

theorem selection_short_counterexample:
  "selectionnerNoeudsAleatoires (math_random (exemple_draws None))
      [\<lparr>nodeId = 0, pubKey = []\<rparr>, \<lparr>nodeId = 1, pubKey = []\<rparr>] 3 =
     [\<lparr>nodeId = 1, pubKey = []\<rparr>, \<lparr>nodeId = 0, pubKey = []\<rparr>]"
  by (simp add: selectionnerNoeudsAleatoires_def exemple_draws_def numeral_2_eq_2)

section \<open>The selected circuit\<close>

text \<open>
  C7. When \<^verbatim>\<open>Math.random()\<close> stays in \<open>[0, 1)\<close> and the list has at least \<open>L\<close> nodes
  with pairwise distinct identifiers, the selection returns exactly \<open>L\<close> nodes, with
  pairwise distinct identifiers, each of them a node of the list. The order is the order
  of traversal: a \<^verbatim>\<open>/sendMessage\<close> that delivers its envelope delivers it to the port
  of the node at index 0, and records the identifiers in that order.
\<close>

theorem circuit_selection:
  assumes "\<forall>k. 0 \<le> math_random dr k \<and> math_random dr k < 1"
    and "L \<le> length nodes" and "distinct (map nodeId nodes)"
  shows "length (selectionnerNoeudsAleatoires (math_random dr) nodes L) = L \<and>
     distinct (map nodeId (selectionnerNoeudsAleatoires (math_random dr) nodes L)) \<and>
     set (selectionnerNoeudsAleatoires (math_random dr) nodes L) \<subseteq> set nodes \<and>
     (registry dr = Some nodes \<longrightarrow>
      snd (snd (sendMessage be conf net dr st body)) = Some (p, d) \<longrightarrow>
        p = BASE_ONION_ROUTER_PORT conf +
              nodeId (selectionnerNoeudsAleatoires (math_random dr) nodes 3 ! 0) \<and>
        dernierCircuit (fst (sendMessage be conf net dr st body)) =
          map nodeId (selectionnerNoeudsAleatoires (math_random dr) nodes 3))"
proof -
  let ?m = "melanger (math_random dr) 0 (length nodes - 1) nodes"
  have perm: "mset ?m = mset nodes" by (rule melanger_permutation [OF assms(1)])
  have len: "length ?m = length nodes" by (rule melanger_length [OF assms(1)])
  have "mset (map nodeId ?m) = mset (map nodeId nodes)" using perm by simp
  then have d: "distinct (map nodeId ?m)"
    using assms(3) by (metis mset_eq_imp_distinct_iff)
  have s: "set ?m = set nodes" using perm by (rule mset_eq_setD)
  have 1: "length (selectionnerNoeudsAleatoires (math_random dr) nodes L) = L"
    using len assms(2) by (simp add: selectionnerNoeudsAleatoires_def)
  have 2: "distinct (map nodeId (selectionnerNoeudsAleatoires (math_random dr) nodes L))"
    using d by (simp add: selectionnerNoeudsAleatoires_def take_map [symmetric] distinct_take)
  have 3: "set (selectionnerNoeudsAleatoires (math_random dr) nodes L) \<subseteq> set nodes"
    using s set_take_subset [of L ?m] by (simp add: selectionnerNoeudsAleatoires_def)
  have 4: "dernierCircuit (fst (sendMessage be conf net dr st body)) =
      map nodeId (selectionnerNoeudsAleatoires (math_random dr) nodes 3)"
    if "registry dr = Some nodes" "snd (snd (sendMessage be conf net dr st body)) = Some (p, d)"
    using that by (auto simp: sendMessage_def split: sum.splits if_splits)
  show ?thesis
    using 1 2 3 4 sendMessage_delivered [of dr nodes be conf net st body p d] by blast
qed

theorem circuit_selection_witness:
  "(\<forall>k. 0 \<le> math_random (exemple_draws (Some exemple_noeuds)) k \<and>
        math_random (exemple_draws (Some exemple_noeuds)) k < 1) \<and>
   3 \<le> length exemple_noeuds \<and> distinct (map nodeId exemple_noeuds) \<and>
   registry (exemple_draws (Some exemple_noeuds)) = Some exemple_noeuds \<and>
   selectionnerNoeudsAleatoires (math_random (exemple_draws (Some exemple_noeuds)))
     exemple_noeuds 3 = [exemple_noeuds ! 1, exemple_noeuds ! 2, exemple_noeuds ! 0] \<and>
   map_option fst (snd (snd (sendMessage exemple_backend exemple_conf reseau_fiable
     (exemple_draws (Some exemple_noeuds)) exemple_etat
     \<lparr>message = ascii ''hello'', destinationUserId = 1\<rparr>))) = Some 4001 \<and>
   dernierCircuit (fst (sendMessage exemple_backend exemple_conf reseau_fiable
     (exemple_draws (Some exemple_noeuds)) exemple_etat
     \<lparr>message = ascii ''hello'', destinationUserId = 1\<rparr>)) = [1, 2, 0]"
proof -
  let ?dr = "exemple_draws (Some exemple_noeuds)"
  let ?body = "\<lparr>message = ascii ''hello'', destinationUserId = 1\<rparr>"
  have r: "\<forall>k. 0 \<le> math_random ?dr k \<and> math_random ?dr k < 1" by (rule exemple_random)
  have l: "3 \<le> length exemple_noeuds" by (simp add: exemple_noeuds_def)
  have reg: "registry ?dr = Some exemple_noeuds" by (simp add: exemple_draws_def)
  obtain env where env: "construire_oignon exemple_backend exemple_conf ?dr ?body
      [exemple_noeuds ! 1, exemple_noeuds ! 2, exemple_noeuds ! 0] = Inr env"
    using exemple_oignon_shuffled by blast
  have port: "BASE_ONION_ROUTER_PORT exemple_conf +
      nodeId (hd [exemple_noeuds ! 1, exemple_noeuds ! 2, exemple_noeuds ! 0]) = 4001"
    by (simp add: exemple_conf_def exemple_noeuds_def)
  have sent: "snd (snd (sendMessage exemple_backend exemple_conf reseau_fiable ?dr exemple_etat
      ?body)) = Some (4001, env)"
    unfolding sendMessage_def reg option.case exemple_selection env sum.case port
    by (simp add: fetch_message_def reseau_fiable_def)
  have ids: "map nodeId [exemple_noeuds ! 1, exemple_noeuds ! 2, exemple_noeuds ! 0] = [1, 2, 0]"
    by (simp add: exemple_noeuds_def)
  show ?thesis
    using circuit_selection [OF r l exemple_distinct, of exemple_backend exemple_conf
        reseau_fiable exemple_etat ?body 4001 env] r l exemple_distinct reg sent ids
    by (simp add: exemple_selection)
qed

section \<open>A modified ciphertext\<close>




section \<open>The sender's last sent message\<close>

text \<open>
  C9. Every run of \<^verbatim>\<open>/sendMessage\<close> leaves the request's message in the last-sent
  field, whatever the registry answers, whichever circuit is drawn and whether or not the
  layering or the delivery fails: the assignment stands before the \<^verbatim>\<open>try\<close> block and
  nothing undoes it. The instance below is a run that fails (the registry does not
  answer) and reports an error, with the field set all the same.
\<close>

theorem sendMessage_records_message:
  "dernierMessageEnvoye (fst (sendMessage be conf net dr st body)) = Some (message body)"
  by (simp add: sendMessage_def split: option.splits sum.splits)

theorem sendMessage_records_message_witness:
  "sendMessage exemple_backend exemple_conf reseau_fiable (exemple_draws None) exemple_etat
      \<lparr>message = ascii ''hello'', destinationUserId = 1\<rparr> =
     (exemple_etat\<lparr>dernierMessageEnvoye := Some (ascii ''hello'')\<rparr>, Error500, None) \<and>
   dernierMessageEnvoye (fst (sendMessage exemple_backend exemple_conf reseau_fiable
      (exemple_draws None) exemple_etat \<lparr>message = ascii ''hello'', destinationUserId = 1\<rparr>)) =
     Some (ascii ''hello'')"
  using sendMessage_records_message [of exemple_backend exemple_conf reseau_fiable
      "exemple_draws None" exemple_etat "\<lparr>message = ascii ''hello'', destinationUserId = 1\<rparr>"]
  by (simp add: sendMessage_def exemple_draws_def)

section \<open>The router's diagnostic state\<close>

text \<open>
  C10. Every run of the router's \<^verbatim>\<open>/message\<close> stores the incoming envelope as the last
  received encrypted message. A run that fails in the split or in a decryption leaves
  the last decrypted message and the last destination as they were. A run whose
  decryptions succeed stores both, and it does so before it forwards: its response is
  an error when the forwarding fails, with the two fields already updated.
\<close>

theorem router_state_updates:
  "dernierMessageChiffreRecu (fst (router_message be net priv st msg)) = Some msg \<and>
   (dechiffrer_couche be priv msg = Inl e \<longrightarrow>
      router_message be net priv st msg =
        (st\<lparr>dernierMessageChiffreRecu := Some msg\<rparr>, Error500, None)) \<and>
   (dechiffrer_couche be priv msg = Inr (dest, next) \<longrightarrow>
      dernierMessageDechiffreRecu (fst (router_message be net priv st msg)) = Some next \<and>
      derniereDestinationMessage (fst (router_message be net priv st msg)) = Some dest \<and>
      fst (snd (router_message be net priv st msg)) =
        (if fetch_message net dest next then Success200 else Error500))"
proof -
  have "dernierMessageChiffreRecu (fst (router_message be net priv st msg)) = Some msg"
    by (simp add: router_message_def split: sum.splits prod.splits)
  then show ?thesis
    using router_message_decrypted [of be priv msg dest "next" net st]
      router_message_rejected [of be priv msg e net st]
    by simp
qed

theorem router_state_updates_witness:
  "dechiffrer_couche exemple_backend 12 [] = Inl AsymmetricDecryptionError \<and>
   router_message exemple_backend reseau_fiable 12 etat_initial [] =
     (etat_initial\<lparr>dernierMessageChiffreRecu := Some []\<rparr>, Error500, None) \<and>
   dechiffrer_couche exemple_backend 12 exemple_enveloppe = Inr (Num 3001, ascii ''hello'') \<and>
   dernierMessageDechiffreRecu
     (fst (router_message exemple_backend reseau_fiable 12 etat_initial exemple_enveloppe)) =
     Some (ascii ''hello'')"
proof -
  have 1: "dechiffrer_couche exemple_backend 12 [] = Inl AsymmetricDecryptionError"
    by (simp add: dechiffrer_couche_def rsaDecrypt_def base64ToArrayBuffer_def
        exemple_backend_def)
  show ?thesis
    using 1 exemple_enveloppe_layer
      router_state_updates [of exemple_backend reseau_fiable 12 etat_initial "[]"
        AsymmetricDecryptionError]
      router_state_updates [of exemple_backend reseau_fiable 12 etat_initial exemple_enveloppe
        _ "Num 3001" "ascii ''hello''"]
    by simp
qed

text \<open>
  A failed run does not always keep the two fields: here both decryptions succeed, the
  next hop cannot be reached, the router answers with an error, and the fields, empty
  before, hold the decrypted payload and the destination.
\<close>

theorem router_forward_failure_counterexample:
  "router_message exemple_backend reseau_coupe 12 etat_initial exemple_enveloppe =
     (\<lparr>dernierMessageChiffreRecu = Some exemple_enveloppe,
       dernierMessageDechiffreRecu = Some (ascii ''hello''),
       derniereDestinationMessage = Some (Num 3001)\<rparr>,
      Error500, None) \<and>
   dernierMessageDechiffreRecu etat_initial = None \<and>
   derniereDestinationMessage etat_initial = None"
  using exemple_enveloppe_layer
  by (simp add: router_message_def fetch_message_def reseau_coupe_def etat_initial_def)

end
